theory Spec2Isabelle
  imports Complex_Main "HOL-Library.Sublist" "HOL-Library.AList"
begin

section \<open>Python values and strings\<close>

text \<open>
  The program is \<^verbatim>\<open>src/submit_google_form.py\<close>: the class \<^verbatim>\<open>GoogleFormSubmitter\<close>.
  A Python \<^verbatim>\<open>str\<close> is modelled as a \<^typ>\<open>string\<close> whose characters are the code points
  U+0000 to U+00FF; \<^verbatim>\<open>str.isspace\<close>, \<^verbatim>\<open>str.lower\<close> and the regular expression class
  \<^verbatim>\<open>\s\<close> are given on that range as CPython defines them. Code points beyond U+00FF are
  outside the model.
\<close>

text \<open>
  \<^verbatim>\<open>str.isspace\<close> of one character, which is also what \<^verbatim>\<open>\s\<close> matches in a \<^verbatim>\<open>str\<close>
  pattern and what \<^verbatim>\<open>str.strip()\<close> removes: TAB, LF, VT, FF, CR, FS, GS, RS, US, SPACE,
  NEL (U+0085) and NBSP (U+00A0).
\<close>

definition isspace :: "char \<Rightarrow> bool" where
  "isspace c = (let n = (of_char c :: nat) in
     (9 \<le> n \<and> n \<le> 13) \<or> (28 \<le> n \<and> n \<le> 32) \<or> n = 133 \<or> n = 160)"

text \<open>
  \<^verbatim>\<open>str.lower\<close> on U+0000..U+00FF: the letters A..Z and U+00C0..U+00DE (but the
  multiplication sign U+00D7) move up by 32; every other character stays.
\<close>

definition lower_char :: "char \<Rightarrow> char" where
  "lower_char c = (let n = (of_char c :: nat) in
     if (65 \<le> n \<and> n \<le> 90) \<or> (192 \<le> n \<and> n \<le> 222 \<and> n \<noteq> 215)
     then char_of (n + 32) else c)"

definition lower :: "string \<Rightarrow> string" where
  "lower s = map lower_char s"

text \<open>\<^verbatim>\<open>s.strip()\<close>: leading and trailing whitespace removed.\<close>

definition strip :: "string \<Rightarrow> string" where
  "strip s = rev (dropWhile isspace (rev (dropWhile isspace s)))"

text \<open>\<^verbatim>\<open>s.replace(c, '')\<close> for a one-character \<^verbatim>\<open>c\<close>.\<close>

definition remove_char :: "char \<Rightarrow> string \<Rightarrow> string" where
  "remove_char c s = filter (\<lambda>x. x \<noteq> c) s"

text \<open>\<^verbatim>\<open>re.sub(r'\s+', ' ', s)\<close>: every maximal run of whitespace becomes one space.\<close>

function collapse_ws :: "string \<Rightarrow> string" where
  "collapse_ws [] = []"
| "collapse_ws (c # cs) =
     (if isspace c then CHR '' '' # collapse_ws (dropWhile isspace cs)
      else c # collapse_ws cs)"
  by pat_completeness auto
termination
  by (relation "measure length") (auto simp: le_imp_less_Suc length_dropWhile_le)

text \<open>\<^verbatim>\<open>str(n)\<close> of an integer: its decimal digits, with a minus sign when negative.\<close>

definition digit_char :: "nat \<Rightarrow> char" where
  "digit_char k = char_of (48 + k)"

fun str_nat :: "nat \<Rightarrow> string" where
  "str_nat n = (if n < 10 then [digit_char n]
                else str_nat (n div 10) @ [digit_char (n mod 10)])"

declare str_nat.simps [simp del]

definition str_int :: "int \<Rightarrow> string" where
  "str_int i = (if i < 0 then CHR ''-'' # str_nat (nat (- i)) else str_nat (nat i))"

text \<open>
  A Python \<^verbatim>\<open>float\<close>: not-a-number, an infinity, or a finite value. A finite float enters
  with its exact value, a rational number, and the arithmetic done on it is exact: the
  binary rounding of floating-point operations is outside the model.
\<close>

datatype pyfloat = FloatNaN | FloatInf | FloatNegInf | FloatVal rat

text \<open>
  The values a spreadsheet cell or a column label holds, as far as the program
  distinguishes them: a \<^verbatim>\<open>str\<close>; an \<^verbatim>\<open>int\<close>; a \<^verbatim>\<open>float\<close>; a \<^verbatim>\<open>pandas.Timestamp\<close>;
  another object with the attributes \<^verbatim>\<open>day\<close>, \<^verbatim>\<open>month\<close> and \<^verbatim>\<open>year\<close> holding integers (a
  \<^verbatim>\<open>datetime\<close> or \<^verbatim>\<open>date\<close>); \<^verbatim>\<open>pandas.NaT\<close>, the missing timestamp, whose three
  attributes are not-a-number; and any other object that is neither numeric nor has
  these attributes (\<^verbatim>\<open>None\<close>, a \<^verbatim>\<open>time\<close>). The float and the two date-like constructors
  carry the object's \<^verbatim>\<open>str()\<close> beside their value; the last one carries its \<^verbatim>\<open>str()\<close>
  only. Booleans are outside the model.
\<close>

datatype pyval =
    PStr string
  | PInt int
  | PFloat pyfloat string
  | PTimestamp int int int string
  | PDatetime int int int string
  | PNaT
  | POther string

fun py_str :: "pyval \<Rightarrow> string" where
  "py_str (PStr s) = s"
| "py_str (PInt i) = str_int i"
| "py_str (PFloat f s) = s"
| "py_str (PTimestamp d m y s) = s"
| "py_str (PDatetime d m y s) = s"
| "py_str PNaT = ''NaT''"
| "py_str (POther s) = s"

subsection \<open>The field normalizer\<close>

text \<open>
  \<^verbatim>\<open>normalize\<close> (lines 83 to 95):
  \<^verbatim>\<open>if not isinstance(text, str): text = str(text)\<close>,
  \<^verbatim>\<open>text = text.replace('\n', '').replace('*', '').strip().lower()\<close>,
  \<^verbatim>\<open>text = re.sub(r'\s+', ' ', text)\<close>.
\<close>

definition normalize :: "pyval \<Rightarrow> string" where
  "normalize text =
     collapse_ws (lower (strip (remove_char (CHR ''*'') (remove_char (CHR 0x0A) (py_str text)))))"

text \<open>A string that neither starts nor ends with whitespace.\<close>

definition trimmed :: "string \<Rightarrow> bool" where
  "trimmed s = (s = [] \<or> (\<not> isspace (hd s) \<and> \<not> isspace (last s)))"

section \<open>Exceptions\<close>

text \<open>
  A raised Python exception: its class, as far as a handler of the program tells classes
  apart, and its \<^verbatim>\<open>str()\<close>. Every class here derives from \<^verbatim>\<open>Exception\<close>; the signals
  that do not (\<^verbatim>\<open>KeyboardInterrupt\<close>, \<^verbatim>\<open>SystemExit\<close>) are outside the model.
  \<^verbatim>\<open>OtherException\<close> stands for every other class, for example a
  \<^verbatim>\<open>WebDriverException\<close> that is not a timeout.
\<close>

datatype exn_class =
  ValueError | TypeError | OverflowError | TimeoutException | OutOfBoundsDatetime | OtherException

datatype exn = Exn exn_class string

fun exn_cls :: "exn \<Rightarrow> exn_class" where
  "exn_cls (Exn c m) = c"

fun exn_str :: "exn \<Rightarrow> string" where
  "exn_str (Exn c m) = m"

section \<open>Calendar dates\<close>

text \<open>
  The proleptic Gregorian calendar of Python's \<^verbatim>\<open>datetime\<close>: leap years, the length of a
  month, the dates \<^verbatim>\<open>datetime.date\<close> accepts (years 1 to 9999), and the day number of a
  date (\<^verbatim>\<open>date.toordinal\<close>: 0001-01-01 is day 1), written as the sum of the days of the
  years and months before it.
\<close>

definition is_leap :: "int \<Rightarrow> bool" where
  "is_leap y = ((y mod 4 = 0 \<and> y mod 100 \<noteq> 0) \<or> y mod 400 = 0)"

definition days_in_month :: "int \<Rightarrow> int \<Rightarrow> int" where
  "days_in_month y m =
     (if m = 2 then (if is_leap y then 29 else 28)
      else if m = 4 \<or> m = 6 \<or> m = 9 \<or> m = 11 then 30 else 31)"

definition valid_date :: "int \<Rightarrow> int \<Rightarrow> int \<Rightarrow> bool" where
  "valid_date y m d =
     (1 \<le> y \<and> y \<le> 9999 \<and> 1 \<le> m \<and> m \<le> 12 \<and> 1 \<le> d \<and> d \<le> days_in_month y m)"

definition days_before_year :: "int \<Rightarrow> int" where
  "days_before_year y = (y - 1) * 365 + (y - 1) div 4 - (y - 1) div 100 + (y - 1) div 400"

definition days_before_month :: "int \<Rightarrow> int \<Rightarrow> int" where
  "days_before_month y m = sum_list (map (days_in_month y) [1..m - 1])"

definition toordinal :: "int \<Rightarrow> int \<Rightarrow> int \<Rightarrow> int" where
  "toordinal y m d = days_before_year y + days_before_month y m + d"

text \<open>A \<^verbatim>\<open>datetime\<close> or \<^verbatim>\<open>Timestamp\<close> result, of which the program reads year, month and day.\<close>

datatype datetime = Datetime (dt_year: int) (dt_month: int) (dt_day: int)

subsection \<open>\<^verbatim>\<open>datetime.strptime\<close> for the directives the program uses\<close>

text \<open>
  CPython's \<^verbatim>\<open>_strptime\<close> turns a format into a regular expression, one group per
  directive, and matches it at the start of the string:
  \<^verbatim>\<open>%d\<close> is \<^verbatim>\<open>3[0-1]|[1-2]\d|0[1-9]|[1-9]| [1-9]\<close>,
  \<^verbatim>\<open>%m\<close> is \<^verbatim>\<open>1[0-2]|0[1-9]|[1-9]\<close>, \<^verbatim>\<open>%y\<close> is \<^verbatim>\<open>\d\d\<close> and \<^verbatim>\<open>%Y\<close> is \<^verbatim>\<open>\d\d\d\d\<close>.
  An alternative is a sequence of character ranges; the alternatives of a group are tried
  in order, with backtracking into the rest of the format.
\<close>

datatype directive = Dd | Dm | Dy | DY

datatype fmt_item = Dir directive | Lit char

type_synonym cclass = "char \<times> char"

definition in_class :: "cclass \<Rightarrow> char \<Rightarrow> bool" where
  "in_class r c = ((of_char (fst r) :: nat) \<le> of_char c \<and> (of_char c :: nat) \<le> of_char (snd r))"

definition any_digit :: cclass where
  "any_digit = (CHR ''0'', CHR ''9'')"

definition is_digit :: "char \<Rightarrow> bool" where
  "is_digit c = in_class any_digit c"

definition one_char :: "char \<Rightarrow> cclass" where
  "one_char c = (c, c)"

fun directive_regex :: "directive \<Rightarrow> cclass list list" where
  "directive_regex Dd =
     [[one_char (CHR ''3''), (CHR ''0'', CHR ''1'')],
      [(CHR ''1'', CHR ''2''), any_digit],
      [one_char (CHR ''0''), (CHR ''1'', CHR ''9'')],
      [(CHR ''1'', CHR ''9'')],
      [one_char (CHR '' ''), (CHR ''1'', CHR ''9'')]]"
| "directive_regex Dm =
     [[one_char (CHR ''1''), (CHR ''0'', CHR ''2'')],
      [one_char (CHR ''0''), (CHR ''1'', CHR ''9'')],
      [(CHR ''1'', CHR ''9'')]]"
| "directive_regex Dy = [[any_digit, any_digit]]"
| "directive_regex DY = [[any_digit, any_digit, any_digit, any_digit]]"

text \<open>One alternative against the start of a string: the matched text and the rest.\<close>

fun match_seq :: "cclass list \<Rightarrow> string \<Rightarrow> (string \<times> string) option" where
  "match_seq [] s = Some ([], s)"
| "match_seq (r # rs) [] = None"
| "match_seq (r # rs) (c # cs) =
     (if in_class r c
      then (case match_seq rs cs of None \<Rightarrow> None | Some (t, rest) \<Rightarrow> Some (c # t, rest))
      else None)"

text \<open>The matches of a directive at the start of a string, in the order the regex tries them.\<close>

definition dir_matches :: "directive \<Rightarrow> string \<Rightarrow> (string \<times> string) list" where
  "dir_matches d s = List.map_filter (\<lambda>alt. match_seq alt s) (directive_regex d)"

text \<open>\<^verbatim>\<open>int(text)\<close> of a matched group: decimal digits, after a leading blank if any.\<close>

definition digit_val :: "char \<Rightarrow> int" where
  "digit_val c = int (of_char c) - 48"

definition int_of_text :: "string \<Rightarrow> int" where
  "int_of_text t = foldl (\<lambda>a c. 10 * a + digit_val c) 0 (dropWhile isspace t)"

text \<open>
  The fields \<^verbatim>\<open>_strptime\<close> collects: year, month, day, starting from 1900, 1, 1. A
  two-digit year up to 68 is in the 2000s, any other in the 1900s.
\<close>

fun set_field :: "directive \<Rightarrow> string \<Rightarrow> int \<times> int \<times> int \<Rightarrow> int \<times> int \<times> int" where
  "set_field Dd t (y, m, d) = (y, m, int_of_text t)"
| "set_field Dm t (y, m, d) = (y, int_of_text t, d)"
| "set_field DY t (y, m, d) = (int_of_text t, m, d)"
| "set_field Dy t (y, m, d) =
     (if int_of_text t \<le> 68 then int_of_text t + 2000 else int_of_text t + 1900, m, d)"

text \<open>The first successful alternative, in order.\<close>

fun first_some :: "('a \<Rightarrow> 'b option) \<Rightarrow> 'a list \<Rightarrow> 'b option" where
  "first_some f [] = None"
| "first_some f (x # xs) = (case f x of None \<Rightarrow> first_some f xs | Some y \<Rightarrow> Some y)"

lemma first_some_cong [fundef_cong]:
  "xs = ys \<Longrightarrow> (\<And>x. x \<in> set ys \<Longrightarrow> f x = g x) \<Longrightarrow> first_some f xs = first_some g ys"
  by (induction ys arbitrary: xs) (auto split: option.splits)

text \<open>
  The regex match of a whole format at the start of a string: the fields and the
  unconverted rest of the first match the backtracking search finds.
\<close>

fun match_fmt ::
  "fmt_item list \<Rightarrow> string \<Rightarrow> int \<times> int \<times> int \<Rightarrow> ((int \<times> int \<times> int) \<times> string) option" where
  "match_fmt [] s acc = Some (acc, s)"
| "match_fmt (Lit c # fs) s acc =
     (case s of [] \<Rightarrow> None | x # xs \<Rightarrow> if x = c then match_fmt fs xs acc else None)"
| "match_fmt (Dir d # fs) s acc =
     first_some (\<lambda>(t, rest). match_fmt fs rest (set_field d t acc)) (dir_matches d s)"

text \<open>
  \<^verbatim>\<open>datetime.strptime(s, fmt)\<close>: \<^verbatim>\<open>ValueError\<close> when the regex does not match, when
  unconverted data remains after the match, or when the fields are not a date.
\<close>

definition strptime :: "string \<Rightarrow> fmt_item list \<Rightarrow> exn + datetime" where
  "strptime s fmt =
     (case match_fmt fmt s (1900, 1, 1) of
        None \<Rightarrow> Inl (Exn ValueError ''time data does not match format'')
      | Some ((y, m, d), rest) \<Rightarrow>
          if rest \<noteq> [] then Inl (Exn ValueError ''unconverted data remains'')
          else if valid_date y m d then Inr (Datetime y m d)
          else Inl (Exn ValueError ''day is out of range for month''))"

subsection \<open>\<^verbatim>\<open>pandas.to_datetime(n, unit='D', origin='1899-12-30')\<close>\<close>

text \<open>
  The calendar date with a given day number, by the 400, 100, 4 and 1 year cycles
  (the algorithm of CPython's \<^verbatim>\<open>_ord2ymd\<close>).
\<close>

definition month_table :: "int \<Rightarrow> int" where
  "month_table m = [0, 31, 59, 90, 120, 151, 181, 212, 243, 273, 304, 334] ! nat (m - 1)"

text \<open>
  Month and day from the leap flag of the year and the 0-based day of the year: the
  estimate \<^verbatim>\<open>(n + 50) >> 5\<close> of the month is exact or one too large.
\<close>

definition month_day :: "bool \<Rightarrow> int \<Rightarrow> int \<times> int" where
  "month_day leapyear n =
     (let month = (n + 50) div 32;
          preceding = month_table month + (if month > 2 \<and> leapyear then 1 else 0)
      in if preceding > n
         then (let month = month - 1;
                   preceding = month_table month + (if month > 2 \<and> leapyear then 1 else 0)
               in (month, n - preceding + 1))
         else (month, n - preceding + 1))"

definition ord2ymd :: "int \<Rightarrow> datetime" where
  "ord2ymd n0 =
     (let n = n0 - 1;
          n400 = n div 146097; n = n mod 146097;
          n100 = n div 36524; n = n mod 36524;
          n4 = n div 1461; n = n mod 1461;
          n1 = n div 365; n = n mod 365;
          year = n400 * 400 + 1 + n100 * 100 + n4 * 4 + n1
      in if n1 = 4 \<or> n100 = 4 then Datetime (year - 1) 12 31
         else
           let leapyear = (n1 = 3 \<and> (n4 \<noteq> 24 \<or> n100 = 3));
               (month, day) = month_day leapyear n
           in Datetime year month day)"

text \<open>
  A \<^verbatim>\<open>Timestamp\<close> is a signed 64-bit count of nanoseconds since 1970-01-01. The serial is
  moved to that origin (1899-12-30 is 25569 days before it) and scaled to nanoseconds;
  a count that does not fit raises \<^verbatim>\<open>OutOfBoundsDatetime\<close>. Day 1 of
  \<^const>\<open>toordinal\<close> is 719162 days before 1970-01-01.
\<close>

definition to_datetime_days :: "int \<Rightarrow> exn + datetime" where
  "to_datetime_days n =
     (let days = n - 25569;
          ns = days * 86400 * 1000000000
      in if - (2 ^ 63) < ns \<and> ns < 2 ^ 63 then Inr (ord2ymd (days + 719163))
         else Inl (Exn OutOfBoundsDatetime ''Out of bounds nanosecond timestamp''))"

text \<open>
  The same call on a float. After the origin is added, \<^verbatim>\<open>cast_from_unit\<close> splits the
  number of days into its integer part (truncated towards zero) and the fraction, rounds
  the fraction to nine decimals (half to even), and scales both to nanoseconds; an
  integer part or a count that does not fit 64 bits raises. NaN gives \<^verbatim>\<open>NaT\<close>, the
  missing timestamp, here \<^const>\<open>None\<close>; an infinity cannot be converted to an integer
  and raises \<^verbatim>\<open>OverflowError\<close>.
\<close>

definition round_half_even :: "rat \<Rightarrow> int" where
  "round_half_even x =
     (let f = \<lfloor>x\<rfloor>; d = x - of_int f
      in if d < 1 / 2 then f else if 1 / 2 < d then f + 1 else if even f then f else f + 1)"

definition trunc_int :: "rat \<Rightarrow> int" where
  "trunc_int x = (if 0 \<le> x then \<lfloor>x\<rfloor> else \<lceil>x\<rceil>)"

definition ns_per_day :: int where
  "ns_per_day = 86400 * 1000000000"

definition fits_int64 :: "int \<Rightarrow> bool" where
  "fits_int64 n = (- (2 ^ 63) \<le> n \<and> n < 2 ^ 63)"

definition cast_days_to_ns :: "rat \<Rightarrow> exn + int" where
  "cast_days_to_ns v =
     (let base = trunc_int v in
      if \<not> fits_int64 base
      then Inl (Exn OverflowError ''Python int too large to convert to C long'')
      else
        let frac = of_int (round_half_even ((v - of_int base) * 1000000000)) / 1000000000;
            ns = base * ns_per_day + trunc_int (frac * of_int ns_per_day)
        in if fits_int64 (base * ns_per_day) \<and> fits_int64 ns then Inr ns
           else Inl (Exn OutOfBoundsDatetime ''cannot convert input with the unit D''))"

definition to_datetime_float :: "pyfloat \<Rightarrow> exn + datetime option" where
  "to_datetime_float f =
     (case f of
        FloatNaN \<Rightarrow> Inr None
      | FloatInf \<Rightarrow> Inl (Exn OverflowError ''cannot convert float infinity to integer'')
      | FloatNegInf \<Rightarrow> Inl (Exn OverflowError ''cannot convert float infinity to integer'')
      | FloatVal v \<Rightarrow>
          (case cast_days_to_ns (v + of_int (- 25569)) of
             Inl e \<Rightarrow> Inl e
           | Inr ns \<Rightarrow> Inr (Some (ord2ymd (ns div ns_per_day + 719163)))))"

subsection \<open>The date value parser\<close>

text \<open>
  The formats of line 218, in order:
  \<^verbatim>\<open>'%d-%m-%Y', '%Y-%m-%d', '%m/%d/%Y', '%d/%m/%Y', '%d-%m-%y', '%Y/%m/%d'\<close>.
\<close>

definition fmt_d_m_Y :: "fmt_item list" where
  "fmt_d_m_Y = [Dir Dd, Lit (CHR ''-''), Dir Dm, Lit (CHR ''-''), Dir DY]"

definition fmt_Y_m_d :: "fmt_item list" where
  "fmt_Y_m_d = [Dir DY, Lit (CHR ''-''), Dir Dm, Lit (CHR ''-''), Dir Dd]"

definition fmt_m_d_Y_slash :: "fmt_item list" where
  "fmt_m_d_Y_slash = [Dir Dm, Lit (CHR ''/''), Dir Dd, Lit (CHR ''/''), Dir DY]"

definition fmt_d_m_Y_slash :: "fmt_item list" where
  "fmt_d_m_Y_slash = [Dir Dd, Lit (CHR ''/''), Dir Dm, Lit (CHR ''/''), Dir DY]"

definition fmt_d_m_y :: "fmt_item list" where
  "fmt_d_m_y = [Dir Dd, Lit (CHR ''-''), Dir Dm, Lit (CHR ''-''), Dir Dy]"

definition fmt_Y_m_d_slash :: "fmt_item list" where
  "fmt_Y_m_d_slash = [Dir DY, Lit (CHR ''/''), Dir Dm, Lit (CHR ''/''), Dir Dd]"

definition date_formats :: "fmt_item list list" where
  "date_formats =
     [fmt_d_m_Y, fmt_Y_m_d, fmt_m_d_Y_slash, fmt_d_m_Y_slash, fmt_d_m_y, fmt_Y_m_d_slash]"

text \<open>
  The result of \<^verbatim>\<open>_parse_date_value\<close>: day, month, year, each \<^verbatim>\<open>None\<close> or a number. The
  number is an integer, or not-a-number when it is read from \<^verbatim>\<open>NaT\<close>.
\<close>

datatype pynum = Num int | NaN

type_synonym date_triple = "pynum option \<times> pynum option \<times> pynum option"

definition triple_of :: "datetime \<Rightarrow> date_triple" where
  "triple_of dt = (Some (Num (dt_day dt)), Some (Num (dt_month dt)), Some (Num (dt_year dt)))"

text \<open>
  The loop of lines 218 to 226: the first format \<^verbatim>\<open>strptime\<close> accepts sets the three
  fields and ends the loop; a \<^verbatim>\<open>ValueError\<close> moves on to the next format; any other
  exception leaves the loop for the handler of line 234.
\<close>

fun try_formats :: "string \<Rightarrow> fmt_item list list \<Rightarrow> exn + date_triple" where
  "try_formats s [] = Inr (None, None, None)"
| "try_formats s (f # fs) =
     (case strptime s f of
        Inr dt \<Rightarrow> Inr (triple_of dt)
      | Inl e \<Rightarrow> if exn_cls e = ValueError then try_formats s fs else Inl e)"

text \<open>
  \<^verbatim>\<open>_parse_date_value\<close> (lines 196 to 237). The branches are tried in the source's
  order: a \<^verbatim>\<open>Timestamp\<close> (the missing timestamp \<^verbatim>\<open>NaT\<close> has the three attributes too, each
  not-a-number), an object with day, month and year, a \<^verbatim>\<open>str\<close>, a number (\<^verbatim>\<open>int\<close> or
  \<^verbatim>\<open>float\<close>), and anything else. An exception in a branch is caught at line 234 and the
  fields set so far are returned; in every branch the fields are set only after the call
  that can raise.
\<close>

fun parse_date_value :: "pyval \<Rightarrow> date_triple" where
  "parse_date_value (PTimestamp d m y s) = (Some (Num d), Some (Num m), Some (Num y))"
| "parse_date_value (PDatetime d m y s) = (Some (Num d), Some (Num m), Some (Num y))"
| "parse_date_value PNaT = (Some NaN, Some NaN, Some NaN)"
| "parse_date_value (PStr s) =
     (case try_formats (strip s) date_formats of
        Inl e \<Rightarrow> (None, None, None)
      | Inr t \<Rightarrow> t)"
| "parse_date_value (PInt n) =
     (case to_datetime_days n of
        Inl e \<Rightarrow> (None, None, None)
      | Inr dt \<Rightarrow> triple_of dt)"
| "parse_date_value (PFloat f s) =
     (case to_datetime_float f of
        Inl e \<Rightarrow> (None, None, None)
      | Inr None \<Rightarrow> (Some NaN, Some NaN, Some NaN)
      | Inr (Some dt) \<Rightarrow> triple_of dt)"
| "parse_date_value (POther s) = (None, None, None)"

text \<open>
  The test of line 245 in \<^verbatim>\<open>_fill_date_field\<close>:
  \<^verbatim>\<open>if day is None or month is None or year is None\<close>.
\<close>

definition date_unparseable :: "date_triple \<Rightarrow> bool" where
  "date_unparseable t = (case t of (day, month, year) \<Rightarrow> day = None \<or> month = None \<or> year = None)"

subsection \<open>Writing a date in a pattern\<close>

text \<open>
  How a date is written in one of the six patterns: day and month as two digits, the
  year as four digits (\<^verbatim>\<open>YYYY\<close>) or as its last two (\<^verbatim>\<open>YY\<close>). This is the reading of
  ``a date string in pattern P'' against which the parser is checked; it is not part of
  the program.
\<close>

definition pad2 :: "int \<Rightarrow> string" where
  "pad2 n = [digit_char (nat (n div 10 mod 10)), digit_char (nat (n mod 10))]"

definition pad4 :: "int \<Rightarrow> string" where
  "pad4 n = pad2 (n div 100) @ pad2 (n mod 100)"

fun write_item :: "int \<Rightarrow> int \<Rightarrow> int \<Rightarrow> fmt_item \<Rightarrow> string" where
  "write_item y m d (Lit c) = [c]"
| "write_item y m d (Dir Dd) = pad2 d"
| "write_item y m d (Dir Dm) = pad2 m"
| "write_item y m d (Dir DY) = pad4 y"
| "write_item y m d (Dir Dy) = pad2 (y mod 100)"

definition write_date :: "fmt_item list \<Rightarrow> int \<Rightarrow> int \<Rightarrow> int \<Rightarrow> string" where
  "write_date fmt y m d = concat (map (write_item y m d) fmt)"

text \<open>The year \<^verbatim>\<open>strptime\<close> reads from a two-digit year.\<close>

definition pivot_year :: "int \<Rightarrow> int" where
  "pivot_year yy = (if yy \<le> 68 then yy + 2000 else yy + 1900)"

text \<open>
  A number of days rounded to nine decimals, half to even, counted in units of
  \<open>10\<^sup>-\<^sup>9\<close> day.
\<close>

definition nano_days :: "rat \<Rightarrow> int" where
  "nano_days v = round_half_even (v * 1000000000)"

section \<open>Properties of the normalizer\<close>

lemma isspace_lower_char: "isspace (lower_char c) = isspace c"
  unfolding isspace_def lower_char_def Let_def
  by (auto simp: of_char_of)

lemma lower_char_idem: "lower_char (lower_char c) = lower_char c"
  unfolding lower_char_def Let_def
  by (auto)

lemma lower_char_space: "lower_char (CHR '' '') = CHR '' ''"
  by (simp add: lower_char_def)

lemma of_char_lower_char:
  "(of_char (lower_char c) :: nat) =
     (if (65 \<le> (of_char c :: nat) \<and> (of_char c :: nat) \<le> 90) \<or>
         (192 \<le> (of_char c :: nat) \<and> (of_char c :: nat) \<le> 222 \<and> (of_char c :: nat) \<noteq> 215)
      then of_char c + 32 else of_char c)"
  by (auto simp: lower_char_def Let_def of_char_of)

lemma lower_char_star: "lower_char c = CHR ''*'' \<Longrightarrow> c = CHR ''*''"
proof -
  assume "lower_char c = CHR ''*''"
  then have "(of_char (lower_char c) :: nat) = 42" by simp
  then have "(of_char c :: nat) = of_char (CHR ''*'')"
    by (simp add: of_char_lower_char split: if_splits)
  then show ?thesis by (simp only: of_char_eq_iff)
qed

lemma lower_char_newline: "lower_char c = CHR 0x0A \<Longrightarrow> c = CHR 0x0A"
proof -
  assume "lower_char c = CHR 0x0A"
  then have "(of_char (lower_char c) :: nat) = 10" by simp
  then have "(of_char c :: nat) = of_char (CHR 0x0A)"
    by (simp add: of_char_lower_char split: if_splits)
  then show ?thesis by (simp only: of_char_eq_iff)
qed

lemma isspace_space: "isspace (CHR '' '')"
  by (simp add: isspace_def)

lemma not_isspace_star: "\<not> isspace (CHR ''*'')"
  by (simp add: isspace_def)


lemma dropWhile_last_keep:
  "xs \<noteq> [] \<Longrightarrow> \<not> P (last xs) \<Longrightarrow> dropWhile P xs \<noteq> [] \<and> last (dropWhile P xs) = last xs"
  by (induction xs) (auto split: if_splits)

lemma dropWhile_rev_nonempty: "dropWhile P (rev xs) \<noteq> [] \<Longrightarrow> xs \<noteq> []"
  by auto

lemma trimmed_strip: "trimmed (strip s)"
proof -
  let ?a = "dropWhile isspace s"
  let ?b = "dropWhile isspace (rev ?a)"
  show ?thesis
  proof (cases "?b = []")
    case True
    then show ?thesis by (simp add: trimmed_def strip_def)
  next
    case False
    then have h: "\<not> isspace (hd ?b)" using hd_dropWhile by blast
    have a_ne: "?a \<noteq> []"
      using False dropWhile_rev_nonempty by blast
    then have ha: "\<not> isspace (hd ?a)" using hd_dropWhile by blast
    then have "\<not> isspace (last (rev ?a))" using a_ne by (simp add: last_rev)
    with a_ne have "last ?b = last (rev ?a)"
      using dropWhile_last_keep [of "rev ?a" isspace] by simp
    then have "last ?b = hd ?a" using a_ne by (simp add: last_rev)
    with ha h False show ?thesis
      by (simp add: trimmed_def strip_def hd_rev last_rev)
  qed
qed

lemma strip_trimmed: "trimmed s \<Longrightarrow> strip s = s"
proof (cases "s = []")
  case True
  then show ?thesis by (simp add: strip_def)
next
  case False
  assume "trimmed s"
  with False have h: "\<not> isspace (hd s)" and l: "\<not> isspace (last s)"
    by (auto simp: trimmed_def)
  from False h have 1: "dropWhile isspace s = s" by (cases s) auto
  from False l have "\<not> isspace (hd (rev s))" by (simp add: hd_rev)
  with False have 2: "dropWhile isspace (rev s) = rev s" by (cases "rev s") auto
  show ?thesis by (simp add: strip_def 1 2)
qed

lemma trimmed_lower: "trimmed s \<Longrightarrow> trimmed (lower s)"
  by (auto simp: trimmed_def lower_def hd_map last_map isspace_lower_char)

lemma collapse_ws_Nil_iff: "collapse_ws s = [] \<longleftrightarrow> s = []"
  by (cases s) auto

lemma hd_collapse_ws: "s \<noteq> [] \<Longrightarrow> \<not> isspace (hd s) \<Longrightarrow> hd (collapse_ws s) = hd s"
  by (cases s) auto

lemma last_collapse_ws:
  "s \<noteq> [] \<Longrightarrow> \<not> isspace (last s) \<Longrightarrow> last (collapse_ws s) = last s"
proof (induction s rule: collapse_ws.induct)
  case 1
  then show ?case by simp
next
  case (2 c cs)
  show ?case
  proof (cases "isspace c")
    case True
    with "2.prems" have cs: "cs \<noteq> []" by auto
    with "2.prems" have l: "\<not> isspace (last cs)" by simp
    from dropWhile_last_keep [of cs isspace, OF cs l]
    have d: "dropWhile isspace cs \<noteq> []" "last (dropWhile isspace cs) = last cs" by auto
    with "2.IH"(1) [OF True] l have "last (collapse_ws (dropWhile isspace cs)) = last cs" by simp
    with True cs d show ?thesis by (auto simp: collapse_ws_Nil_iff)
  next
    case False
    show ?thesis
    proof (cases "cs = []")
      case True
      with False show ?thesis by simp
    next
      case ne: False
      with "2.prems" have "\<not> isspace (last cs)" by simp
      with "2.IH"(2) [OF False ne] have "last (collapse_ws cs) = last cs" by simp
      with False ne show ?thesis by (simp add: collapse_ws_Nil_iff)
    qed
  qed
qed

lemma trimmed_collapse_ws: "trimmed s \<Longrightarrow> trimmed (collapse_ws s)"
  by (auto simp: trimmed_def collapse_ws_Nil_iff hd_collapse_ws last_collapse_ws)

lemma dropWhile_collapse_ws:
  "s = [] \<or> \<not> isspace (hd s) \<Longrightarrow> dropWhile isspace (collapse_ws s) = collapse_ws s"
  by (cases s) auto

lemma collapse_ws_idem: "collapse_ws (collapse_ws s) = collapse_ws s"
proof (induction s rule: collapse_ws.induct)
  case 1
  then show ?case by simp
next
  case (2 c cs)
  show ?case
  proof (cases "isspace c")
    case True
    have "dropWhile isspace cs = [] \<or> \<not> isspace (hd (dropWhile isspace cs))"
      using hd_dropWhile by blast
    then have "dropWhile isspace (collapse_ws (dropWhile isspace cs)) = collapse_ws (dropWhile isspace cs)"
      by (rule dropWhile_collapse_ws)
    with True 2(1) show ?thesis by (simp add: isspace_space)
  next
    case False
    with 2(2) show ?thesis by simp
  qed
qed

lemma set_collapse_ws: "set (collapse_ws s) \<subseteq> insert (CHR '' '') (set s)"
proof (induction s rule: collapse_ws.induct)
  case 1
  then show ?case by simp
next
  case (2 c cs)
  have "set (dropWhile isspace cs) \<subseteq> set cs" by (rule set_dropWhileD [THEN subsetI])
  with 2 show ?case by (cases "isspace c") auto
qed

lemma set_strip: "set (strip s) \<subseteq> set s"
proof -
  have "set (strip s) = set (dropWhile isspace (rev (dropWhile isspace s)))"
    by (simp add: strip_def)
  also have "\<dots> \<subseteq> set (rev (dropWhile isspace s))" by (rule set_dropWhileD [THEN subsetI])
  also have "\<dots> \<subseteq> set s" using set_dropWhileD [of _ isspace s] by auto
  finally show ?thesis .
qed

lemma lower_collapse_ws: "lower (collapse_ws s) = collapse_ws (lower s)"
proof (induction s rule: collapse_ws.induct)
  case 1
  then show ?case by (simp add: lower_def)
next
  case (2 c cs)
  have d: "map lower_char (dropWhile isspace cs) = dropWhile isspace (map lower_char cs)"
    by (simp add: dropWhile_map comp_def isspace_lower_char)
  from 2 show ?case
    by (cases "isspace c") (simp_all add: lower_def isspace_lower_char lower_char_space d)
qed

lemma lower_idem: "lower (lower s) = lower s"
  by (simp add: lower_def lower_char_idem)

lemma remove_char_absent: "c \<notin> set s \<Longrightarrow> remove_char c s = s"
  by (induction s) (auto simp: remove_char_def)

lemma set_lower: "set (lower s) = lower_char ` set s"
  by (simp add: lower_def)

lemma normalize_free:
  "CHR 0x0A \<notin> set (normalize x) \<and> CHR ''*'' \<notin> set (normalize x)"
proof -
  let ?u = "remove_char (CHR ''*'') (remove_char (CHR 0x0A) (py_str x))"
  have u: "CHR 0x0A \<notin> set ?u" "CHR ''*'' \<notin> set ?u" by (auto simp: remove_char_def)
  with set_strip [of ?u] have s: "CHR 0x0A \<notin> set (strip ?u)" "CHR ''*'' \<notin> set (strip ?u)" by auto
  have l1: "CHR 0x0A \<notin> set (lower (strip ?u))"
    using s(1) unfolding set_lower by (auto dest: lower_char_newline [OF sym])
  have l2: "CHR ''*'' \<notin> set (lower (strip ?u))"
    using s(2) unfolding set_lower by (auto dest: lower_char_star [OF sym])
  note l = l1 l2
  with set_collapse_ws [of "lower (strip ?u)"] show ?thesis
    by (auto simp: normalize_def)
qed

lemma normalize_trimmed: "trimmed (normalize x)"
  by (simp add: normalize_def trimmed_collapse_ws trimmed_lower trimmed_strip)

lemma normalize_idempotent: "normalize (PStr (normalize x)) = normalize x"
proof -
  let ?n = "normalize x"
  have 1: "remove_char (CHR 0x0A) ?n = ?n" "remove_char (CHR ''*'') ?n = ?n"
    using normalize_free [of x] by (simp_all add: remove_char_absent)
  have 2: "strip ?n = ?n" by (rule strip_trimmed [OF normalize_trimmed])
  have 3: "lower ?n = ?n"
    by (simp add: normalize_def lower_collapse_ws lower_idem)
  have 4: "collapse_ws ?n = ?n" by (simp add: normalize_def collapse_ws_idem)
  show ?thesis
    by (simp add: normalize_def [of "PStr ?n"] 1 2 3 4)
qed

section \<open>Properties of the calendar\<close>

lemma int_cases_1_12:
  fixes m :: int
  assumes "1 \<le> m" "m \<le> 12"
  shows "m = 1 \<or> m = 2 \<or> m = 3 \<or> m = 4 \<or> m = 5 \<or> m = 6 \<or> m = 7 \<or> m = 8 \<or> m = 9 \<or> m = 10 \<or> m = 11 \<or> m = 12"
  using assms by arith

lemma days_before_month_table:
  assumes "1 \<le> m" "m \<le> 12"
  shows "days_before_month y m = month_table m + (if m > 2 \<and> is_leap y then 1 else 0)"
  using int_cases_1_12 [OF assms]
  by (elim disjE) (simp_all add: days_before_month_def month_table_def days_in_month_def upto.simps)

lemma days_before_year_decomp:
  assumes "0 \<le> b" "b \<le> 3" "0 \<le> c" "c \<le> 24" "0 \<le> e" "e \<le> 3"
  shows "days_before_year (400 * a + 100 * b + 4 * c + e + 1) =
         146097 * a + 36524 * b + 1461 * c + 365 * e"
proof -
  let ?P = "400 * a + 100 * b + 4 * c + e"
  have d4: "?P div 4 = 100 * a + 25 * b + c"
    by (rule int_div_pos_eq [where r = e]) (use assms in auto)
  have d100: "?P div 100 = 4 * a + b"
    by (rule int_div_pos_eq [where r = "4 * c + e"]) (use assms in auto)
  have d400: "?P div 400 = a"
    by (rule int_div_pos_eq [where r = "100 * b + 4 * c + e"]) (use assms in auto)
  show ?thesis
    by (simp add: days_before_year_def d4 d100 d400)
qed

lemma is_leap_decomp:
  assumes "0 \<le> b" "b \<le> 3" "0 \<le> c" "c \<le> 24" "0 \<le> e" "e \<le> 3"
  shows "is_leap (400 * a + 100 * b + 4 * c + e + 1) \<longleftrightarrow> (e = 3 \<and> (c \<noteq> 24 \<or> b = 3))"
proof -
  let ?Y = "400 * a + 100 * b + 4 * c + e + 1"
  show ?thesis
  proof (cases "e = 3")
    case False
    with assms have e: "e + 1 < 4" by simp
    have m4: "?Y mod 4 = e + 1"
      by (rule int_mod_pos_eq [where q = "100 * a + 25 * b + c"]) (use assms e in auto)
    have m400: "?Y mod 400 = 100 * b + 4 * c + e + 1"
      by (rule int_mod_pos_eq [where q = a]) (use assms e in auto)
    from m4 m400 assms False show ?thesis by (simp add: is_leap_def)
  next
    case True
    have m4: "?Y mod 4 = 0"
      by (rule int_mod_pos_eq [where q = "100 * a + 25 * b + c + 1"]) (use True in auto)
    show ?thesis
    proof (cases "c = 24")
      case c24: True
      have m100: "?Y mod 100 = 0"
        by (rule int_mod_pos_eq [where q = "4 * a + b + 1"]) (use True c24 in auto)
      show ?thesis
      proof (cases "b = 3")
        case b3: True
        have "?Y mod 400 = 0"
          by (rule int_mod_pos_eq [where q = "a + 1"]) (use True c24 b3 in auto)
        with True c24 b3 show ?thesis by (simp add: is_leap_def)
      next
        case b3: False
        have "?Y mod 400 = 100 * b + 100"
          by (rule int_mod_pos_eq [where q = a]) (use True c24 b3 assms in auto)
        with m100 True c24 b3 assms show ?thesis by (simp add: is_leap_def)
      qed
    next
      case c24: False
      have "?Y mod 100 = 4 * c + 4"
        by (rule int_mod_pos_eq [where q = "4 * a + b"]) (use True c24 assms in auto)
      with m4 True c24 assms show ?thesis by (simp add: is_leap_def)
    qed
  qed
qed


lemma month_day_correct:
  assumes n: "0 \<le> n" "n < (if is_leap y then 366 else 365)"
    and md: "month_day (is_leap y) n = (m, d)"
  shows "1 \<le> m \<and> m \<le> 12 \<and> 1 \<le> d \<and> d \<le> days_in_month y m \<and>
         days_before_month y m + d = n + 1"
proof -
  define k where "k = (n + 50) div 32"
  have "n + 50 = 32 * k + (n + 50) mod 32"
    unfolding k_def by (simp only: mult_div_mod_eq)
  moreover have "0 \<le> (n + 50) mod 32" "(n + 50) mod 32 < 32"
    by (rule pos_mod_sign, simp) (rule pos_mod_bound, simp)
  ultimately have lo: "32 * k \<le> n + 50" and hi: "n + 50 < 32 * k + 32"
    by linarith+
  from n lo hi have "1 \<le> k" "k \<le> 12" by (auto split: if_splits)
  then have cases: "k = 1 \<or> k = 2 \<or> k = 3 \<or> k = 4 \<or> k = 5 \<or> k = 6 \<or> k = 7 \<or> k = 8 \<or> k = 9 \<or> k = 10 \<or> k = 11 \<or> k = 12"
    by (rule int_cases_1_12)
  from md have md': "(let month = k;
          preceding = month_table month + (if month > 2 \<and> is_leap y then 1 else 0)
      in if preceding > n
         then (let month = month - 1;
                   preceding = month_table month + (if month > 2 \<and> is_leap y then 1 else 0)
               in (month, n - preceding + 1))
         else (month, n - preceding + 1)) = (m, d)"
    by (simp add: month_day_def k_def)
  from cases show ?thesis
  proof (elim disjE)
    assume "k = 1" with md' n lo hi show ?thesis
      by (auto simp: Let_def month_table_def days_in_month_def days_before_month_table split: if_splits)
  next
    assume "k = 2" with md' n lo hi show ?thesis
      by (auto simp: Let_def month_table_def days_in_month_def days_before_month_table split: if_splits)
  next
    assume "k = 3" with md' n lo hi show ?thesis
      by (auto simp: Let_def month_table_def days_in_month_def days_before_month_table split: if_splits)
  next
    assume "k = 4" with md' n lo hi show ?thesis
      by (auto simp: Let_def month_table_def days_in_month_def days_before_month_table split: if_splits)
  next
    assume "k = 5" with md' n lo hi show ?thesis
      by (auto simp: Let_def month_table_def days_in_month_def days_before_month_table split: if_splits)
  next
    assume "k = 6" with md' n lo hi show ?thesis
      by (auto simp: Let_def month_table_def days_in_month_def days_before_month_table split: if_splits)
  next
    assume "k = 7" with md' n lo hi show ?thesis
      by (auto simp: Let_def month_table_def days_in_month_def days_before_month_table split: if_splits)
  next
    assume "k = 8" with md' n lo hi show ?thesis
      by (auto simp: Let_def month_table_def days_in_month_def days_before_month_table split: if_splits)
  next
    assume "k = 9" with md' n lo hi show ?thesis
      by (auto simp: Let_def month_table_def days_in_month_def days_before_month_table split: if_splits)
  next
    assume "k = 10" with md' n lo hi show ?thesis
      by (auto simp: Let_def month_table_def days_in_month_def days_before_month_table split: if_splits)
  next
    assume "k = 11" with md' n lo hi show ?thesis
      by (auto simp: Let_def month_table_def days_in_month_def days_before_month_table split: if_splits)
  next
    assume "k = 12" with md' n lo hi show ?thesis
      by (auto simp: Let_def month_table_def days_in_month_def days_before_month_table split: if_splits)
  qed
qed


lemma divmod_pos_facts:
  fixes n k :: int
  assumes "0 < k"
  shows "n = k * (n div k) + n mod k" "0 \<le> n mod k" "n mod k < k"
  using assms by (simp_all only: mult_div_mod_eq pos_mod_sign pos_mod_bound)

lemma ord2ymd_correct:
  assumes n0: "1 \<le> n0"
  shows "1 \<le> dt_year (ord2ymd n0) \<and>
         dt_year (ord2ymd n0) \<le> 400 * ((n0 - 1) div 146097) + 400 \<and>
         1 \<le> dt_month (ord2ymd n0) \<and> dt_month (ord2ymd n0) \<le> 12 \<and>
         1 \<le> dt_day (ord2ymd n0) \<and>
         dt_day (ord2ymd n0) \<le> days_in_month (dt_year (ord2ymd n0)) (dt_month (ord2ymd n0)) \<and>
         toordinal (dt_year (ord2ymd n0)) (dt_month (ord2ymd n0)) (dt_day (ord2ymd n0)) = n0"
proof -
  define n where "n = n0 - 1"
  define a where "a = n div 146097"
  define r1 where "r1 = n mod 146097"
  define b where "b = r1 div 36524"
  define r2 where "r2 = r1 mod 36524"
  define c where "c = r2 div 1461"
  define r3 where "r3 = r2 mod 1461"
  define e where "e = r3 div 365"
  define r4 where "r4 = r3 mod 365"
  have f1: "n = 146097 * a + r1" "0 \<le> r1" "r1 < 146097"
    unfolding a_def r1_def by (rule divmod_pos_facts, simp)+
  have f2: "r1 = 36524 * b + r2" "0 \<le> r2" "r2 < 36524"
    unfolding b_def r2_def by (rule divmod_pos_facts, simp)+
  have f3: "r2 = 1461 * c + r3" "0 \<le> r3" "r3 < 1461"
    unfolding c_def r3_def by (rule divmod_pos_facts, simp)+
  have f4: "r3 = 365 * e + r4" "0 \<le> r4" "r4 < 365"
    unfolding e_def r4_def by (rule divmod_pos_facts, simp)+
  from n0 have npos: "0 \<le> n" by (simp add: n_def)
  from npos f1 have a0: "0 \<le> a" by linarith
  from f1 f2 have b0: "0 \<le> b" and b4: "b \<le> 4" by linarith+
  from f2 f3 have c0: "0 \<le> c" and c24: "c \<le> 24" by linarith+
  from f3 f4 have e0: "0 \<le> e" and e4: "e \<le> 4" by linarith+
  have unfold: "ord2ymd n0 =
     (if e = 4 \<or> b = 4 then Datetime (a * 400 + 1 + b * 100 + c * 4 + e - 1) 12 31
      else (case month_day (e = 3 \<and> (c \<noteq> 24 \<or> b = 3)) r4 of
              (month, day) \<Rightarrow> Datetime (a * 400 + 1 + b * 100 + c * 4 + e) month day))"
    by (simp add: ord2ymd_def Let_def n_def a_def r1_def b_def r2_def c_def r3_def e_def r4_def)
  have adiv: "(n0 - 1) div 146097 = a" by (simp add: a_def n_def)
  show ?thesis
  proof (cases "b = 4")
    case True
    with f1 f2 have "r2 = 0" by linarith
    with f3 f4 c0 e0 have z: "c = 0" "e = 0" "r4 = 0" by linarith+
    have y: "a * 400 + 1 + b * 100 + c * 4 + e - 1 = 400 * a + 100 * 3 + 4 * 24 + 3 + 1"
      using True z by simp
    have dby: "days_before_year (400 * a + 100 * 3 + 4 * 24 + 3 + 1) = 146097 * a + 36524 * 3 + 1461 * 24 + 365 * 3"
      by (rule days_before_year_decomp) simp_all
    have lp: "is_leap (400 * a + 100 * 3 + 4 * 24 + 3 + 1)"
      using is_leap_decomp [of 3 24 3 a] by simp
    have nval: "n0 = 146097 * a + 146097"
      using f1 f2 True \<open>r2 = 0\<close> by (simp add: n_def)
    have res: "ord2ymd n0 = Datetime (400 * a + 100 * 3 + 4 * 24 + 3 + 1) 12 31"
      using True z by (simp add: unfold)
    show ?thesis
      unfolding res adiv datetime.sel
      using a0 lp dby nval
      by (simp add: toordinal_def days_before_month_table days_in_month_def month_table_def)
  next
    case bne: False
    with b4 have b3: "b \<le> 3" by simp
    show ?thesis
    proof (cases "e = 4")
      case True
      with f3 f4 have r40: "r4 = 0" by linarith
      from True f2 f3 f4 r40 have c23: "c \<le> 23" by linarith
      have y: "a * 400 + 1 + b * 100 + c * 4 + e - 1 = 400 * a + 100 * b + 4 * c + 3 + 1"
        using True by simp
      have dby: "days_before_year (400 * a + 100 * b + 4 * c + 3 + 1) = 146097 * a + 36524 * b + 1461 * c + 365 * 3"
        by (rule days_before_year_decomp) (use b0 b3 c0 c23 in simp_all)
      have lp: "is_leap (400 * a + 100 * b + 4 * c + 3 + 1)"
        using is_leap_decomp [of b c 3 a] b0 b3 c0 c23 by simp
      have nval: "n0 = 146097 * a + 36524 * b + 1461 * c + 1461"
        using f1 f2 f3 f4 True r40 by (simp add: n_def)
      have res: "ord2ymd n0 = Datetime (400 * a + 100 * b + 4 * c + 3 + 1) 12 31"
        using True by (simp add: unfold)
      show ?thesis
        unfolding res adiv datetime.sel
        using a0 b0 b3 c0 c23 lp dby nval
        by (simp add: toordinal_def days_before_month_table days_in_month_def month_table_def)
    next
      case ene: False
      with e4 have e3: "e \<le> 3" by simp
      let ?Y = "400 * a + 100 * b + 4 * c + e + 1"
      have y: "a * 400 + 1 + b * 100 + c * 4 + e = ?Y" by simp
      have dby: "days_before_year ?Y = 146097 * a + 36524 * b + 1461 * c + 365 * e"
        by (rule days_before_year_decomp) (use b0 b3 c0 c24 e0 e3 in simp_all)
      have lp: "is_leap ?Y \<longleftrightarrow> (e = 3 \<and> (c \<noteq> 24 \<or> b = 3))"
        by (rule is_leap_decomp) (use b0 b3 c0 c24 e0 e3 in simp_all)
      obtain m d where md: "month_day (is_leap ?Y) r4 = (m, d)" by force
      have r4b: "r4 < (if is_leap ?Y then 366 else 365)" using f4 by simp
      note mdc = month_day_correct [OF f4(2) r4b md]
      have res: "ord2ymd n0 = Datetime ?Y m d"
        using md bne ene by (simp add: unfold y lp)
      have nval: "n0 = 146097 * a + 36524 * b + 1461 * c + 365 * e + r4 + 1"
        using f1 f2 f3 f4 by (simp add: n_def)
      show ?thesis
        unfolding res adiv datetime.sel
        using mdc a0 b0 b3 c0 c24 e0 e3 dby nval
        by (simp add: toordinal_def)
    qed
  qed
qed

section \<open>Properties of the format matcher\<close>

lemma of_char_digit_char: "k < 10 \<Longrightarrow> (of_char (digit_char k) :: nat) = 48 + k"
  by (simp add: digit_char_def of_char_of)

lemma digit_char_eq_iff: "k < 10 \<Longrightarrow> digit_char k = c \<longleftrightarrow> (of_char c :: nat) = 48 + k"
proof -
  assume k: "k < 10"
  have "digit_char k = c \<longleftrightarrow> (of_char (digit_char k) :: nat) = of_char c"
    by (simp only: of_char_eq_iff)
  also have "\<dots> \<longleftrightarrow> (48 + k = (of_char c :: nat))"
    by (simp only: of_char_digit_char [OF k])
  also have "\<dots> \<longleftrightarrow> (of_char c :: nat) = 48 + k"
    by (rule eq_commute)
  finally show ?thesis .
qed

lemma in_class_digit_char:
  "k < 10 \<Longrightarrow> in_class (lo, hi) (digit_char k) \<longleftrightarrow> (of_char lo :: nat) \<le> 48 + k \<and> 48 + k \<le> (of_char hi :: nat)"
  by (simp add: in_class_def of_char_digit_char)

lemma digit_val_digit_char: "k < 10 \<Longrightarrow> digit_val (digit_char k) = int k"
  by (simp add: digit_val_def of_char_digit_char)

lemma not_isspace_digit_char: "k < 10 \<Longrightarrow> \<not> isspace (digit_char k)"
  by (simp add: isspace_def of_char_digit_char)



lemma match_seq1: "match_seq [r1] (x # rest) = (if in_class r1 x then Some ([x], rest) else None)"
  by simp

lemma match_seq2:
  "match_seq [r1, r2] (x # y # rest) =
     (if in_class r1 x \<and> in_class r2 y then Some ([x, y], rest) else None)"
  by simp

lemma nat_cases_0_3:
  fixes a :: nat
  assumes "a \<le> 3"
  shows "a = 0 \<or> a = 1 \<or> a = 2 \<or> a = 3"
  using assms by arith

lemmas matcher_simps =
  dir_matches_def List.map_filter_simps one_char_def any_digit_def in_class_digit_char
  match_seq1 match_seq2 digit_char_eq_iff


lemma is_digit_iff: "is_digit c \<longleftrightarrow> 48 \<le> (of_char c :: nat) \<and> (of_char c :: nat) \<le> 57"
  by (simp add: is_digit_def any_digit_def in_class_def)

lemma is_digit_digit_char: "k < 10 \<Longrightarrow> is_digit (digit_char k)"
  by (simp add: is_digit_iff of_char_digit_char)

lemma match_day_sep:
  assumes "a < 10" "b < 10" "1 \<le> 10 * a + b" "10 * a + b \<le> 31" "\<not> is_digit c"
  shows "match_fmt (Dir Dd # Lit c # fs) (digit_char a # digit_char b # c # rest) acc =
         match_fmt fs rest (set_field Dd [digit_char a, digit_char b] acc)"
proof -
  from assms have "a \<le> 3" by simp
  then have "a = 0 \<or> a = 1 \<or> a = 2 \<or> a = 3" by (rule nat_cases_0_3)
  then show ?thesis
  proof (elim disjE)
    assume "a = 0" with assms show ?thesis
      by (auto simp: matcher_simps is_digit_iff split: option.split)
  next
    assume "a = 1" with assms show ?thesis
      by (auto simp: matcher_simps is_digit_iff split: option.split)
  next
    assume "a = 2" with assms show ?thesis
      by (auto simp: matcher_simps is_digit_iff split: option.split)
  next
    assume "a = 3" with assms show ?thesis
      by (auto simp: matcher_simps is_digit_iff split: option.split)
  qed
qed

lemma match_month_sep:
  assumes "a < 10" "b < 10" "1 \<le> 10 * a + b" "10 * a + b \<le> 12" "\<not> is_digit c"
  shows "match_fmt (Dir Dm # Lit c # fs) (digit_char a # digit_char b # c # rest) acc =
         match_fmt fs rest (set_field Dm [digit_char a, digit_char b] acc)"
proof -
  from assms have "a = 0 \<or> a = 1" by arith
  then show ?thesis
  proof (elim disjE)
    assume "a = 0" with assms show ?thesis
      by (auto simp: matcher_simps is_digit_iff split: option.split)
  next
    assume "a = 1" with assms show ?thesis
      by (auto simp: matcher_simps is_digit_iff split: option.split)
  qed
qed

lemma match_year_sep:
  assumes "a < 10" "b < 10" "e < 10" "f < 10"
  shows "match_fmt (Dir DY # Lit c # fs)
           (digit_char a # digit_char b # digit_char e # digit_char f # c # rest) acc =
         match_fmt fs rest (set_field DY [digit_char a, digit_char b, digit_char e, digit_char f] acc)"
  using assms by (simp add: matcher_simps split: option.split)

lemma match_day_end:
  assumes "a < 10" "b < 10" "1 \<le> 10 * a + b" "10 * a + b \<le> 31"
  shows "match_fmt [Dir Dd] (digit_char a # digit_char b # rest) acc =
         Some (set_field Dd [digit_char a, digit_char b] acc, rest)"
proof -
  from assms have "a \<le> 3" by simp
  then have "a = 0 \<or> a = 1 \<or> a = 2 \<or> a = 3" by (rule nat_cases_0_3)
  then show ?thesis
  proof (elim disjE)
    assume "a = 0" with assms show ?thesis by (simp add: matcher_simps)
  next
    assume "a = 1" with assms show ?thesis by (simp add: matcher_simps)
  next
    assume "a = 2" with assms show ?thesis by (simp add: matcher_simps)
  next
    assume "a = 3" with assms show ?thesis by (simp add: matcher_simps)
  qed
qed

lemma match_year_end:
  assumes "a < 10" "b < 10" "e < 10" "f < 10"
  shows "match_fmt [Dir DY] (digit_char a # digit_char b # digit_char e # digit_char f # rest) acc =
         Some (set_field DY [digit_char a, digit_char b, digit_char e, digit_char f] acc, rest)"
  using assms by (simp add: matcher_simps)

lemma match_y_end:
  assumes "a < 10" "b < 10"
  shows "match_fmt [Dir Dy] (digit_char a # digit_char b # rest) acc =
         Some (set_field Dy [digit_char a, digit_char b] acc, rest)"
  using assms by (simp add: matcher_simps)

lemma match_wrong_sep:
  assumes "d = Dd \<or> d = Dm" "a < 10" "b < 10" "x \<noteq> c" "\<not> is_digit c"
  shows "match_fmt (Dir d # Lit c # fs) (digit_char a # digit_char b # x # rest) acc = None"
  using assms by (auto simp: matcher_simps is_digit_iff split: option.split)

lemma match_month_invalid:
  assumes "a < 10" "b < 10" "10 * a + b = 0 \<or> 12 < 10 * a + b" "\<not> is_digit c"
  shows "match_fmt (Dir Dm # Lit c # fs) (digit_char a # digit_char b # rest) acc = None"
  using assms by (auto simp: matcher_simps is_digit_iff split: option.split)

lemma match_year_nondigit3:
  assumes "\<not> is_digit x"
  shows "match_fmt (Dir DY # fs) (u # v # x # rest) acc = None"
  using assms by (simp add: matcher_simps is_digit_def)

lemma match_year_short:
  "match_fmt (Dir DY # fs) [u, v] acc = None"
  by (simp add: matcher_simps)

lemma match_year_wrong_sep:
  assumes "a < 10" "b < 10" "e < 10" "f < 10" "x \<noteq> c"
  shows "match_fmt (Dir DY # Lit c # fs)
           (digit_char a # digit_char b # digit_char e # digit_char f # x # rest) acc = None"
  using assms by (simp add: matcher_simps)

section \<open>Parsing a written date\<close>

lemma int_of_text2:
  "a < 10 \<Longrightarrow> b < 10 \<Longrightarrow> int_of_text [digit_char a, digit_char b] = int (10 * a + b)"
  by (simp add: int_of_text_def not_isspace_digit_char digit_val_digit_char)

lemma int_of_text4:
  "a < 10 \<Longrightarrow> b < 10 \<Longrightarrow> e < 10 \<Longrightarrow> f < 10 \<Longrightarrow>
   int_of_text [digit_char a, digit_char b, digit_char e, digit_char f] =
   int (1000 * a + 100 * b + 10 * e + f)"
  by (simp add: int_of_text_def not_isspace_digit_char digit_val_digit_char)

lemma pad2_digits:
  assumes "0 \<le> n" "n \<le> 99"
  shows "\<exists>a b. a < 10 \<and> b < 10 \<and> int (10 * a + b) = n \<and> pad2 n = [digit_char a, digit_char b]"
proof -
  have dm: "n = 10 * (n div 10) + n mod 10" "0 \<le> n mod 10" "n mod 10 < 10"
    by (rule divmod_pos_facts, simp)+
  with assms have q: "0 \<le> n div 10" "n div 10 < 10" by linarith+
  then have t: "n div 10 mod 10 = n div 10" by simp
  have 1: "nat (n div 10) < 10" using q by simp
  have 2: "nat (n mod 10) < 10" using dm by simp
  have 3: "int (10 * nat (n div 10) + nat (n mod 10)) = n" using q dm by simp
  have 4: "pad2 n = [digit_char (nat (n div 10)), digit_char (nat (n mod 10))]"
    by (simp add: pad2_def t)
  from 1 2 3 4 show ?thesis by blast
qed

lemma pad4_digits:
  assumes "0 \<le> n" "n \<le> 9999"
  shows "\<exists>a b e f. a < 10 \<and> b < 10 \<and> e < 10 \<and> f < 10 \<and>
    int (1000 * a + 100 * b + 10 * e + f) = n \<and>
    pad4 n = [digit_char a, digit_char b, digit_char e, digit_char f]"
proof -
  have dm: "n = 100 * (n div 100) + n mod 100" "0 \<le> n mod 100" "n mod 100 < 100"
    by (rule divmod_pos_facts, simp)+
  with assms have q: "0 \<le> n div 100" "n div 100 \<le> 99" by linarith+
  from pad2_digits [OF q] obtain a b where
    ab: "a < 10" "b < 10" "int (10 * a + b) = n div 100" "pad2 (n div 100) = [digit_char a, digit_char b]"
    by blast
  from dm have r: "0 \<le> n mod 100" "n mod 100 \<le> 99" by linarith+
  from pad2_digits [OF r] obtain e f where
    ef: "e < 10" "f < 10" "int (10 * e + f) = n mod 100" "pad2 (n mod 100) = [digit_char e, digit_char f]"
    by blast
  have "int (1000 * a + 100 * b + 10 * e + f) = 100 * int (10 * a + b) + int (10 * e + f)"
    by simp
  also have "\<dots> = n" using dm(1) by (simp only: ab(3) ef(3))
  finally have v: "int (1000 * a + 100 * b + 10 * e + f) = n" .
  have p: "pad4 n = [digit_char a, digit_char b, digit_char e, digit_char f]"
    by (simp add: pad4_def ab(4) ef(4))
  from ab(1,2) ef(1,2) v p show ?thesis by blast
qed


lemma not_is_digit_dash: "\<not> is_digit (CHR ''-'')"
  by (simp add: is_digit_iff)

lemma not_is_digit_slash: "\<not> is_digit (CHR ''/'')"
  by (simp add: is_digit_iff)

lemma days_in_month_bounds: "28 \<le> days_in_month y m \<and> days_in_month y m \<le> 31"
  by (simp add: days_in_month_def)

lemma set_field_simps:
  "a < 10 \<Longrightarrow> b < 10 \<Longrightarrow> set_field Dd [digit_char a, digit_char b] (y, m, d) = (y, m, int (10 * a + b))"
  "a < 10 \<Longrightarrow> b < 10 \<Longrightarrow> set_field Dm [digit_char a, digit_char b] (y, m, d) = (y, int (10 * a + b), d)"
  "a < 10 \<Longrightarrow> b < 10 \<Longrightarrow> e < 10 \<Longrightarrow> f < 10 \<Longrightarrow>
     set_field DY [digit_char a, digit_char b, digit_char e, digit_char f] (y, m, d) =
       (int (1000 * a + 100 * b + 10 * e + f), m, d)"
  "a < 10 \<Longrightarrow> b < 10 \<Longrightarrow> set_field Dy [digit_char a, digit_char b] (y, m, d) =
     (if int (10 * a + b) \<le> 68 then int (10 * a + b) + 2000 else int (10 * a + b) + 1900, m, d)"
  by (simp_all only: set_field.simps int_of_text2 int_of_text4)

lemma match_d_m_Y_ok:
  assumes "a < 10" "b < 10" "1 \<le> 10 * a + b" "10 * a + b \<le> 31"
    and "e < 10" "f < 10" "1 \<le> 10 * e + f" "10 * e + f \<le> 12"
    and "g < 10" "h < 10" "i < 10" "j < 10" "\<not> is_digit c"
  shows "match_fmt [Dir Dd, Lit c, Dir Dm, Lit c, Dir DY]
           [digit_char a, digit_char b, c, digit_char e, digit_char f, c,
            digit_char g, digit_char h, digit_char i, digit_char j] acc0 =
         Some ((int (1000 * g + 100 * h + 10 * i + j), int (10 * e + f), int (10 * a + b)), [])"
proof -
  obtain y0 m0 d0 where acc0: "acc0 = (y0, m0, d0)" by (cases acc0) auto
  show ?thesis
    unfolding acc0
    by (simp only: match_day_sep [OF assms(1-4) assms(13)] match_month_sep [OF assms(5-8) assms(13)]
        match_year_end [OF assms(9-12)] set_field_simps assms)
qed


lemma match_Y_m_d_ok:
  assumes "a < 10" "b < 10" "1 \<le> 10 * a + b" "10 * a + b \<le> 31"
    and "e < 10" "f < 10" "1 \<le> 10 * e + f" "10 * e + f \<le> 12"
    and "g < 10" "h < 10" "i < 10" "j < 10" "\<not> is_digit c"
  shows "match_fmt [Dir DY, Lit c, Dir Dm, Lit c, Dir Dd]
           [digit_char g, digit_char h, digit_char i, digit_char j, c,
            digit_char e, digit_char f, c, digit_char a, digit_char b] acc0 =
         Some ((int (1000 * g + 100 * h + 10 * i + j), int (10 * e + f), int (10 * a + b)), [])"
proof -
  obtain y0 m0 d0 where acc0: "acc0 = (y0, m0, d0)" by (cases acc0) auto
  show ?thesis
    unfolding acc0
    by (simp only: match_year_sep [OF assms(9-12)] match_month_sep [OF assms(5-8) assms(13)]
        match_day_end [OF assms(1-4)] set_field_simps assms)
qed

lemma match_m_d_Y_ok:
  assumes "a < 10" "b < 10" "1 \<le> 10 * a + b" "10 * a + b \<le> 31"
    and "e < 10" "f < 10" "1 \<le> 10 * e + f" "10 * e + f \<le> 12"
    and "g < 10" "h < 10" "i < 10" "j < 10" "\<not> is_digit c"
  shows "match_fmt [Dir Dm, Lit c, Dir Dd, Lit c, Dir DY]
           [digit_char e, digit_char f, c, digit_char a, digit_char b, c,
            digit_char g, digit_char h, digit_char i, digit_char j] acc0 =
         Some ((int (1000 * g + 100 * h + 10 * i + j), int (10 * e + f), int (10 * a + b)), [])"
proof -
  obtain y0 m0 d0 where acc0: "acc0 = (y0, m0, d0)" by (cases acc0) auto
  show ?thesis
    unfolding acc0
    by (simp only: match_day_sep [OF assms(1-4) assms(13)] match_month_sep [OF assms(5-8) assms(13)]
        match_year_end [OF assms(9-12)] set_field_simps assms)
qed

lemma match_d_m_y_ok:
  assumes "a < 10" "b < 10" "1 \<le> 10 * a + b" "10 * a + b \<le> 31"
    and "e < 10" "f < 10" "1 \<le> 10 * e + f" "10 * e + f \<le> 12"
    and "g < 10" "h < 10" "\<not> is_digit c"
  shows "match_fmt [Dir Dd, Lit c, Dir Dm, Lit c, Dir Dy]
           [digit_char a, digit_char b, c, digit_char e, digit_char f, c,
            digit_char g, digit_char h] acc0 =
         Some ((if int (10 * g + h) \<le> 68 then int (10 * g + h) + 2000 else int (10 * g + h) + 1900,
                int (10 * e + f), int (10 * a + b)), [])"
proof -
  obtain y0 m0 d0 where acc0: "acc0 = (y0, m0, d0)" by (cases acc0) auto
  show ?thesis
    unfolding acc0
    by (simp only: match_day_sep [OF assms(1-4) assms(11)] match_month_sep [OF assms(5-8) assms(11)]
        match_y_end [OF assms(9-10)] set_field_simps assms)
qed

lemma match_d_m_Y_short:
  assumes "a < 10" "b < 10" "1 \<le> 10 * a + b" "10 * a + b \<le> 31"
    and "e < 10" "f < 10" "1 \<le> 10 * e + f" "10 * e + f \<le> 12"
    and "\<not> is_digit c"
  shows "match_fmt [Dir Dd, Lit c, Dir Dm, Lit c, Dir DY]
           [digit_char a, digit_char b, c, digit_char e, digit_char f, c, u, v] acc0 = None"
  by (simp only: match_day_sep [OF assms(1-4) assms(9)] match_month_sep [OF assms(5-8) assms(9)]
        match_year_short)

lemma strptime_none:
  "match_fmt fmt s (1900, 1, 1) = None \<Longrightarrow>
   strptime s fmt = Inl (Exn ValueError ''time data does not match format'')"
  by (simp add: strptime_def)

lemma try_formats_skip:
  "match_fmt f s (1900, 1, 1) = None \<Longrightarrow> try_formats s (f # fs) = try_formats s fs"
  by (simp add: strptime_none)

lemma try_formats_hit:
  "match_fmt f s (1900, 1, 1) = Some ((y, m, d), []) \<Longrightarrow> valid_date y m d \<Longrightarrow>
   try_formats s (f # fs) = Inr (Some (Num d), Some (Num m), Some (Num y))"
  by (simp add: strptime_def triple_of_def)


lemma valid_date_digits:
  assumes v: "valid_date y m d"
  shows "\<exists>a b e f g h i j. a < 10 \<and> b < 10 \<and> e < 10 \<and> f < 10 \<and>
           g < 10 \<and> h < 10 \<and> i < 10 \<and> j < 10 \<and>
           int (10 * a + b) = d \<and> 1 \<le> 10 * a + b \<and> 10 * a + b \<le> 31 \<and>
           int (10 * e + f) = m \<and> 1 \<le> 10 * e + f \<and> 10 * e + f \<le> 12 \<and>
           int (1000 * g + 100 * h + 10 * i + j) = y \<and> int (10 * i + j) = y mod 100 \<and>
           pad2 d = [digit_char a, digit_char b] \<and> pad2 m = [digit_char e, digit_char f] \<and>
           pad4 y = [digit_char g, digit_char h, digit_char i, digit_char j] \<and>
           pad2 (y mod 100) = [digit_char i, digit_char j]"
proof -
  from v days_in_month_bounds [of y m]
  have r: "1 \<le> d" "d \<le> 31" "1 \<le> m" "m \<le> 12" "1 \<le> y" "y \<le> 9999"
    by (auto simp: valid_date_def)
  from r have "0 \<le> d" "d \<le> 99" by linarith+
  from pad2_digits [OF this] obtain a b where
    d: "a < 10" "b < 10" "int (10 * a + b) = d" "pad2 d = [digit_char a, digit_char b]" by blast
  from r have "0 \<le> m" "m \<le> 99" by linarith+
  from pad2_digits [OF this] obtain e f where
    m: "e < 10" "f < 10" "int (10 * e + f) = m" "pad2 m = [digit_char e, digit_char f]" by blast
  have dm: "y = 100 * (y div 100) + y mod 100" "0 \<le> y mod 100" "y mod 100 < 100"
    by (rule divmod_pos_facts, simp)+
  with r have "0 \<le> y div 100" "y div 100 \<le> 99" by linarith+
  from pad2_digits [OF this] obtain g h where
    hi: "g < 10" "h < 10" "int (10 * g + h) = y div 100" "pad2 (y div 100) = [digit_char g, digit_char h]"
    by blast
  from dm have "0 \<le> y mod 100" "y mod 100 \<le> 99" by linarith+
  from pad2_digits [OF this] obtain i j where
    lo: "i < 10" "j < 10" "int (10 * i + j) = y mod 100" "pad2 (y mod 100) = [digit_char i, digit_char j]"
    by blast
  have "int (1000 * g + 100 * h + 10 * i + j) = 100 * int (10 * g + h) + int (10 * i + j)"
    by simp
  also have "\<dots> = y" using dm(1) by (simp only: hi(3) lo(3))
  finally have yv: "int (1000 * g + 100 * h + 10 * i + j) = y" .
  have p4: "pad4 y = [digit_char g, digit_char h, digit_char i, digit_char j]"
    by (simp add: pad4_def hi(4) lo(4))
  have da: "1 \<le> 10 * a + b" "10 * a + b \<le> 31" using d(3) r by linarith+
  have mo: "1 \<le> 10 * e + f" "10 * e + f \<le> 12" using m(3) r by linarith+
  show ?thesis
    apply (rule exI [of _ a], rule exI [of _ b], rule exI [of _ e], rule exI [of _ f])
    apply (rule exI [of _ g], rule exI [of _ h], rule exI [of _ i], rule exI [of _ j])
    apply (intro conjI d(1,2) m(1,2) hi(1,2) lo(1,2) d(3) da m(3) mo yv lo(3) d(4) m(4) p4 lo(4))
    done
qed


lemmas fmt_defs =
  fmt_d_m_Y_def fmt_Y_m_d_def fmt_m_d_Y_slash_def fmt_d_m_Y_slash_def fmt_d_m_y_def
  fmt_Y_m_d_slash_def

lemma dash_neq_slash: "CHR ''-'' \<noteq> CHR ''/''" "CHR ''/'' \<noteq> CHR ''-''"
  by simp_all

lemma digit_char_neq_sep:
  "k < 10 \<Longrightarrow> digit_char k \<noteq> CHR ''-''" "k < 10 \<Longrightarrow> digit_char k \<noteq> CHR ''/''"
  by (simp_all add: digit_char_eq_iff)

lemma try_d_m_Y:
  fixes a b e f g h i j :: nat
  assumes lt: "a < 10" "b < 10" "e < 10" "f < 10" "g < 10" "h < 10" "i < 10" "j < 10"
    and d: "1 \<le> 10 * a + b" "10 * a + b \<le> 31"
    and m: "1 \<le> 10 * e + f" "10 * e + f \<le> 12"
    and v: "valid_date (int (1000 * g + 100 * h + 10 * i + j)) (int (10 * e + f)) (int (10 * a + b))"
  shows "try_formats [digit_char a, digit_char b, CHR ''-'', digit_char e, digit_char f, CHR ''-'',
            digit_char g, digit_char h, digit_char i, digit_char j] date_formats =
         Inr (Some (Num (int (10 * a + b))), Some (Num (int (10 * e + f))),
              Some (Num (int (1000 * g + 100 * h + 10 * i + j))))"
  unfolding date_formats_def fmt_defs
  by (rule try_formats_hit [OF match_d_m_Y_ok [OF lt(1,2) d lt(3,4) m lt(5-8) not_is_digit_dash] v])

lemma try_Y_m_d:
  fixes a b e f g h i j :: nat
  assumes lt: "a < 10" "b < 10" "e < 10" "f < 10" "g < 10" "h < 10" "i < 10" "j < 10"
    and d: "1 \<le> 10 * a + b" "10 * a + b \<le> 31"
    and m: "1 \<le> 10 * e + f" "10 * e + f \<le> 12"
    and v: "valid_date (int (1000 * g + 100 * h + 10 * i + j)) (int (10 * e + f)) (int (10 * a + b))"
  shows "try_formats [digit_char g, digit_char h, digit_char i, digit_char j, CHR ''-'',
            digit_char e, digit_char f, CHR ''-'', digit_char a, digit_char b] date_formats =
         Inr (Some (Num (int (10 * a + b))), Some (Num (int (10 * e + f))),
              Some (Num (int (1000 * g + 100 * h + 10 * i + j))))"
  unfolding date_formats_def fmt_defs
  by (simp only: 
      try_formats_skip [OF match_wrong_sep [OF disjI1 [OF refl] lt(5,6) digit_char_neq_sep(1) [OF lt(7)] not_is_digit_dash]]
      try_formats_hit [OF match_Y_m_d_ok [OF lt(1,2) d lt(3,4) m lt(5-8) not_is_digit_dash] v])

lemma try_m_d_Y_slash:
  fixes a b e f g h i j :: nat
  assumes lt: "a < 10" "b < 10" "e < 10" "f < 10" "g < 10" "h < 10" "i < 10" "j < 10"
    and d: "1 \<le> 10 * a + b" "10 * a + b \<le> 31"
    and m: "1 \<le> 10 * e + f" "10 * e + f \<le> 12"
    and v: "valid_date (int (1000 * g + 100 * h + 10 * i + j)) (int (10 * e + f)) (int (10 * a + b))"
  shows "try_formats [digit_char e, digit_char f, CHR ''/'', digit_char a, digit_char b, CHR ''/'',
            digit_char g, digit_char h, digit_char i, digit_char j] date_formats =
         Inr (Some (Num (int (10 * a + b))), Some (Num (int (10 * e + f))),
              Some (Num (int (1000 * g + 100 * h + 10 * i + j))))"
  unfolding date_formats_def fmt_defs
  by (simp only: 
      try_formats_skip [OF match_wrong_sep [OF disjI1 [OF refl] lt(3,4) dash_neq_slash(2) not_is_digit_dash]]
      try_formats_skip [OF match_year_nondigit3 [OF not_is_digit_slash]]
      try_formats_hit [OF match_m_d_Y_ok [OF lt(1,2) d lt(3,4) m lt(5-8) not_is_digit_slash] v])

lemma try_d_m_Y_slash_late:
  fixes a b e f g h i j :: nat
  assumes lt: "a < 10" "b < 10" "e < 10" "f < 10" "g < 10" "h < 10" "i < 10" "j < 10"
    and d: "1 \<le> 10 * a + b" "10 * a + b \<le> 31"
    and m: "1 \<le> 10 * e + f" "10 * e + f \<le> 12"
    and late: "12 < 10 * a + b"
    and v: "valid_date (int (1000 * g + 100 * h + 10 * i + j)) (int (10 * e + f)) (int (10 * a + b))"
  shows "try_formats [digit_char a, digit_char b, CHR ''/'', digit_char e, digit_char f, CHR ''/'',
            digit_char g, digit_char h, digit_char i, digit_char j] date_formats =
         Inr (Some (Num (int (10 * a + b))), Some (Num (int (10 * e + f))),
              Some (Num (int (1000 * g + 100 * h + 10 * i + j))))"
  unfolding date_formats_def fmt_defs
  by (simp only: 
      try_formats_skip [OF match_wrong_sep [OF disjI1 [OF refl] lt(1,2) dash_neq_slash(2) not_is_digit_dash]]
      try_formats_skip [OF match_year_nondigit3 [OF not_is_digit_slash]]
      try_formats_skip [OF match_month_invalid [OF lt(1,2) disjI2 [OF late] not_is_digit_slash]]
      try_formats_hit [OF match_d_m_Y_ok [OF lt(1,2) d lt(3,4) m lt(5-8) not_is_digit_slash] v])

lemma try_d_m_Y_slash_early:
  fixes a b e f g h i j :: nat
  assumes lt: "a < 10" "b < 10" "e < 10" "f < 10" "g < 10" "h < 10" "i < 10" "j < 10"
    and d: "1 \<le> 10 * a + b" "10 * a + b \<le> 31"
    and m: "1 \<le> 10 * e + f" "10 * e + f \<le> 12"
    and early: "10 * a + b \<le> 12"
    and y: "1 \<le> int (1000 * g + 100 * h + 10 * i + j)" "int (1000 * g + 100 * h + 10 * i + j) \<le> 9999"
  shows "try_formats [digit_char a, digit_char b, CHR ''/'', digit_char e, digit_char f, CHR ''/'',
            digit_char g, digit_char h, digit_char i, digit_char j] date_formats =
         Inr (Some (Num (int (10 * e + f))), Some (Num (int (10 * a + b))),
              Some (Num (int (1000 * g + 100 * h + 10 * i + j))))"
proof -
  have e31: "10 * e + f \<le> 31" using m by simp
  have v: "valid_date (int (1000 * g + 100 * h + 10 * i + j)) (int (10 * a + b)) (int (10 * e + f))"
    using d m early y
      days_in_month_bounds [of "int (1000 * g + 100 * h + 10 * i + j)" "int (10 * a + b)"]
    by (simp add: valid_date_def)
  show ?thesis
    unfolding date_formats_def fmt_defs
    by (simp only: 
      try_formats_skip [OF match_wrong_sep [OF disjI1 [OF refl] lt(1,2) dash_neq_slash(2) not_is_digit_dash]]
      try_formats_skip [OF match_year_nondigit3 [OF not_is_digit_slash]]
      try_formats_hit [OF match_m_d_Y_ok [OF lt(3,4) m(1) e31 lt(1,2) d(1) early lt(5-8) not_is_digit_slash] v])
qed

lemma try_d_m_y:
  fixes a b e f g h i j :: nat
  assumes lt: "a < 10" "b < 10" "e < 10" "f < 10" "g < 10" "h < 10" "i < 10" "j < 10"
    and d: "1 \<le> 10 * a + b" "10 * a + b \<le> 31"
    and m: "1 \<le> 10 * e + f" "10 * e + f \<le> 12"
    and v: "valid_date (if int (10 * i + j) \<le> 68 then int (10 * i + j) + 2000 else int (10 * i + j) + 1900)
                 (int (10 * e + f)) (int (10 * a + b))"
  shows "try_formats [digit_char a, digit_char b, CHR ''-'', digit_char e, digit_char f, CHR ''-'',
            digit_char i, digit_char j] date_formats =
         Inr (Some (Num (int (10 * a + b))), Some (Num (int (10 * e + f))),
              Some (Num (if int (10 * i + j) \<le> 68 then int (10 * i + j) + 2000 else int (10 * i + j) + 1900)))"
  unfolding date_formats_def fmt_defs
  by (simp only: 
      try_formats_skip [OF match_d_m_Y_short [OF lt(1,2) d lt(3,4) m not_is_digit_dash]]
      try_formats_skip [OF match_year_nondigit3 [OF not_is_digit_dash]]
      try_formats_skip [OF match_wrong_sep [OF disjI2 [OF refl] lt(1,2) dash_neq_slash(1) not_is_digit_slash]]
      try_formats_skip [OF match_wrong_sep [OF disjI1 [OF refl] lt(1,2) dash_neq_slash(1) not_is_digit_slash]]
      try_formats_hit [OF match_d_m_y_ok [OF lt(1,2) d lt(3,4) m lt(7,8) not_is_digit_dash] v])

lemma try_Y_m_d_slash:
  fixes a b e f g h i j :: nat
  assumes lt: "a < 10" "b < 10" "e < 10" "f < 10" "g < 10" "h < 10" "i < 10" "j < 10"
    and d: "1 \<le> 10 * a + b" "10 * a + b \<le> 31"
    and m: "1 \<le> 10 * e + f" "10 * e + f \<le> 12"
    and v: "valid_date (int (1000 * g + 100 * h + 10 * i + j)) (int (10 * e + f)) (int (10 * a + b))"
  shows "try_formats [digit_char g, digit_char h, digit_char i, digit_char j, CHR ''/'',
            digit_char e, digit_char f, CHR ''/'', digit_char a, digit_char b] date_formats =
         Inr (Some (Num (int (10 * a + b))), Some (Num (int (10 * e + f))),
              Some (Num (int (1000 * g + 100 * h + 10 * i + j))))"
  unfolding date_formats_def fmt_defs
  by (simp only: 
      try_formats_skip [OF match_wrong_sep [OF disjI1 [OF refl] lt(5,6) digit_char_neq_sep(1) [OF lt(7)] not_is_digit_dash]]
      try_formats_skip [OF match_year_wrong_sep [OF lt(5-8) dash_neq_slash(2)]]
      try_formats_skip [OF match_wrong_sep [OF disjI2 [OF refl] lt(5,6) digit_char_neq_sep(2) [OF lt(7)] not_is_digit_slash]]
      try_formats_skip [OF match_wrong_sep [OF disjI1 [OF refl] lt(5,6) digit_char_neq_sep(2) [OF lt(7)] not_is_digit_slash]]
      try_formats_skip [OF match_wrong_sep [OF disjI1 [OF refl] lt(5,6) digit_char_neq_sep(1) [OF lt(7)] not_is_digit_dash]]
      try_formats_hit [OF match_Y_m_d_ok [OF lt(1,2) d lt(3,4) m lt(5-8) not_is_digit_slash] v])

lemma is_leap_pivot:
  assumes "is_leap y"
  shows "is_leap (if y mod 100 \<le> 68 then y mod 100 + 2000 else y mod 100 + 1900)"
proof -
  define r where "r = y mod 100"
  define q where "q = y div 100"
  have y: "y = 100 * q + r" and r: "0 \<le> r" "r < 100"
    unfolding q_def r_def by simp_all
  have r4: "r mod 4 = y mod 4"
    unfolding r_def by (simp add: mod_mod_cancel)
  show ?thesis
  proof (cases "r = 0")
    case True
    then show ?thesis by (simp add: r_def [symmetric] is_leap_def)
  next
    case False
    with assms have "y mod 4 = 0" by (auto simp: is_leap_def r_def)
    with r4 have m4: "r mod 4 = 0" by simp
    show ?thesis
    proof (cases "r \<le> 68")
      case True
      have a: "(r + 2000) mod 4 = 0" using m4 by presburger
      have b: "(r + 2000) mod 100 = r"
        by (rule int_mod_pos_eq [where q = 20]) (use r in auto)
      from True a b False show ?thesis by (simp add: r_def [symmetric] is_leap_def)
    next
      case f: False
      have a: "(r + 1900) mod 4 = 0" using m4 by presburger
      have b: "(r + 1900) mod 100 = r"
        by (rule int_mod_pos_eq [where q = 19]) (use r in auto)
      from f a b False show ?thesis by (simp add: r_def [symmetric] is_leap_def)
    qed
  qed
qed

lemma valid_date_pivot:
  assumes v: "valid_date y m d"
  shows "valid_date (pivot_year (y mod 100)) m d"
proof -
  have r: "0 \<le> y mod 100" "y mod 100 < 100" by simp_all
  then have yr: "1 \<le> pivot_year (y mod 100)" "pivot_year (y mod 100) \<le> 9999"
    by (auto simp: pivot_year_def)
  have "days_in_month y m \<le> days_in_month (pivot_year (y mod 100)) m"
    using is_leap_pivot [of y] by (auto simp: days_in_month_def pivot_year_def)
  with v yr show ?thesis by (auto simp: valid_date_def)
qed

lemma pivot_year_same:
  assumes "1969 \<le> y" "y \<le> 2068"
  shows "pivot_year (y mod 100) = y"
proof -
  have dm: "y = 100 * (y div 100) + y mod 100" "0 \<le> y mod 100" "y mod 100 < 100"
    by (rule divmod_pos_facts, simp)+
  with assms have "y div 100 = 19 \<or> y div 100 = 20" by linarith
  then show ?thesis
  proof
    assume "y div 100 = 19"
    with dm(1) have e: "y = 1900 + y mod 100" by linarith
    with assms have "\<not> y mod 100 \<le> 68" by linarith
    with e show ?thesis by (simp add: pivot_year_def)
  next
    assume "y div 100 = 20"
    with dm(1) have e: "y = 2000 + y mod 100" by linarith
    with assms have "y mod 100 \<le> 68" by linarith
    with e show ?thesis by (simp add: pivot_year_def)
  qed
qed

lemma parse_written_date:
  assumes v: "valid_date y m d"
  shows "parse_date_value (PStr (write_date fmt_d_m_Y y m d)) = (Some (Num d), Some (Num m), Some (Num y))"
    and "parse_date_value (PStr (write_date fmt_Y_m_d y m d)) = (Some (Num d), Some (Num m), Some (Num y))"
    and "parse_date_value (PStr (write_date fmt_m_d_Y_slash y m d)) = (Some (Num d), Some (Num m), Some (Num y))"
    and "parse_date_value (PStr (write_date fmt_d_m_Y_slash y m d)) =
           (if d \<le> 12 then (Some (Num m), Some (Num d), Some (Num y)) else (Some (Num d), Some (Num m), Some (Num y)))"
    and "parse_date_value (PStr (write_date fmt_d_m_y y m d)) =
           (Some (Num d), Some (Num m), Some (Num (pivot_year (y mod 100))))"
    and "parse_date_value (PStr (write_date fmt_Y_m_d_slash y m d)) = (Some (Num d), Some (Num m), Some (Num y))"
proof -
  from valid_date_digits [OF v] obtain a b e f g h i j where
    all: "a < 10 \<and> b < 10 \<and> e < 10 \<and> f < 10 \<and>
           g < 10 \<and> h < 10 \<and> i < 10 \<and> j < 10 \<and>
           int (10 * a + b) = d \<and> 1 \<le> 10 * a + b \<and> 10 * a + b \<le> 31 \<and>
           int (10 * e + f) = m \<and> 1 \<le> 10 * e + f \<and> 10 * e + f \<le> 12 \<and>
           int (1000 * g + 100 * h + 10 * i + j) = y \<and> int (10 * i + j) = y mod 100 \<and>
           pad2 d = [digit_char a, digit_char b] \<and> pad2 m = [digit_char e, digit_char f] \<and>
           pad4 y = [digit_char g, digit_char h, digit_char i, digit_char j] \<and>
           pad2 (y mod 100) = [digit_char i, digit_char j]"
    by (elim exE) (rule that)
  from all have lt: "a < 10" "b < 10" "e < 10" "f < 10" "g < 10" "h < 10" "i < 10" "j < 10"
    by simp_all
  from all have d: "1 \<le> 10 * a + b" "10 * a + b \<le> 31" and dv: "int (10 * a + b) = d"
    by simp_all
  from all have m: "1 \<le> 10 * e + f" "10 * e + f \<le> 12" and mv: "int (10 * e + f) = m"
    by simp_all
  from all have yv: "int (1000 * g + 100 * h + 10 * i + j) = y" and yy: "int (10 * i + j) = y mod 100"
    by blast+
  from all have p: "pad2 d = [digit_char a, digit_char b]" "pad2 m = [digit_char e, digit_char f]"
      "pad4 y = [digit_char g, digit_char h, digit_char i, digit_char j]"
      "pad2 (y mod 100) = [digit_char i, digit_char j]"
    by blast+
  have v': "valid_date (int (1000 * g + 100 * h + 10 * i + j)) (int (10 * e + f)) (int (10 * a + b))"
    using v by (simp only: dv mv yv)
  have yr: "1 \<le> int (1000 * g + 100 * h + 10 * i + j)" "int (1000 * g + 100 * h + 10 * i + j) \<le> 9999"
    using v by (simp_all only: yv valid_date_def)
  have vp: "valid_date (if int (10 * i + j) \<le> 68 then int (10 * i + j) + 2000 else int (10 * i + j) + 1900)
                 (int (10 * e + f)) (int (10 * a + b))"
    using valid_date_pivot [OF v] by (simp only: dv mv yy pivot_year_def)
  note ns = not_isspace_digit_char
  have s1: "strip [digit_char a, digit_char b, CHR ''-'', digit_char e, digit_char f, CHR ''-'',
            digit_char g, digit_char h, digit_char i, digit_char j] = 
            [digit_char a, digit_char b, CHR ''-'', digit_char e, digit_char f, CHR ''-'',
            digit_char g, digit_char h, digit_char i, digit_char j]"
    by (rule strip_trimmed) (simp add: trimmed_def ns lt)
  show "parse_date_value (PStr (write_date fmt_d_m_Y y m d)) = (Some (Num d), Some (Num m), Some (Num y))"
    using try_d_m_Y [OF lt d m v', unfolded dv mv yv]
    by (simp add: write_date_def fmt_d_m_Y_def p s1)
  have s2: "strip [digit_char g, digit_char h, digit_char i, digit_char j, CHR ''-'',
            digit_char e, digit_char f, CHR ''-'', digit_char a, digit_char b] =
            [digit_char g, digit_char h, digit_char i, digit_char j, CHR ''-'',
            digit_char e, digit_char f, CHR ''-'', digit_char a, digit_char b]"
    by (rule strip_trimmed) (simp add: trimmed_def ns lt)
  show "parse_date_value (PStr (write_date fmt_Y_m_d y m d)) = (Some (Num d), Some (Num m), Some (Num y))"
    using try_Y_m_d [OF lt d m v', unfolded dv mv yv]
    by (simp add: write_date_def fmt_Y_m_d_def p s2)
  have s3: "strip [digit_char e, digit_char f, CHR ''/'', digit_char a, digit_char b, CHR ''/'',
            digit_char g, digit_char h, digit_char i, digit_char j] =
            [digit_char e, digit_char f, CHR ''/'', digit_char a, digit_char b, CHR ''/'',
            digit_char g, digit_char h, digit_char i, digit_char j]"
    by (rule strip_trimmed) (simp add: trimmed_def ns lt)
  show "parse_date_value (PStr (write_date fmt_m_d_Y_slash y m d)) = (Some (Num d), Some (Num m), Some (Num y))"
    using try_m_d_Y_slash [OF lt d m v', unfolded dv mv yv]
    by (simp add: write_date_def fmt_m_d_Y_slash_def p s3)
  have s4: "strip [digit_char a, digit_char b, CHR ''/'', digit_char e, digit_char f, CHR ''/'',
            digit_char g, digit_char h, digit_char i, digit_char j] =
            [digit_char a, digit_char b, CHR ''/'', digit_char e, digit_char f, CHR ''/'',
            digit_char g, digit_char h, digit_char i, digit_char j]"
    by (rule strip_trimmed) (simp add: trimmed_def ns lt)
  show "parse_date_value (PStr (write_date fmt_d_m_Y_slash y m d)) =
           (if d \<le> 12 then (Some (Num m), Some (Num d), Some (Num y)) else (Some (Num d), Some (Num m), Some (Num y)))"
  proof (cases "d \<le> 12")
    case True
    then have early: "10 * a + b \<le> 12" using dv by linarith
    from True show ?thesis
      using try_d_m_Y_slash_early [OF lt d m early yr, unfolded dv mv yv]
      by (simp add: write_date_def fmt_d_m_Y_slash_def p s4)
  next
    case False
    then have late: "12 < 10 * a + b" using dv by linarith
    from False show ?thesis
      using try_d_m_Y_slash_late [OF lt d m late v', unfolded dv mv yv]
      by (simp add: write_date_def fmt_d_m_Y_slash_def p s4)
  qed
  have s5: "strip [digit_char a, digit_char b, CHR ''-'', digit_char e, digit_char f, CHR ''-'',
            digit_char i, digit_char j] =
            [digit_char a, digit_char b, CHR ''-'', digit_char e, digit_char f, CHR ''-'',
            digit_char i, digit_char j]"
    by (rule strip_trimmed) (simp add: trimmed_def ns lt)
  show "parse_date_value (PStr (write_date fmt_d_m_y y m d)) =
           (Some (Num d), Some (Num m), Some (Num (pivot_year (y mod 100))))"
    using try_d_m_y [OF lt d m vp, unfolded dv mv yy, folded pivot_year_def]
    by (simp add: write_date_def fmt_d_m_y_def p s5)
  have s6: "strip [digit_char g, digit_char h, digit_char i, digit_char j, CHR ''/'',
            digit_char e, digit_char f, CHR ''/'', digit_char a, digit_char b] =
            [digit_char g, digit_char h, digit_char i, digit_char j, CHR ''/'',
            digit_char e, digit_char f, CHR ''/'', digit_char a, digit_char b]"
    by (rule strip_trimmed) (simp add: trimmed_def ns lt)
  show "parse_date_value (PStr (write_date fmt_Y_m_d_slash y m d)) = (Some (Num d), Some (Num m), Some (Num y))"
    using try_Y_m_d_slash [OF lt d m v', unfolded dv mv yv]
    by (simp add: write_date_def fmt_Y_m_d_slash_def p s6)
qed

section \<open>Properties of the date value parser\<close>

lemma try_formats_shape:
  "try_formats s fs = Inr t \<Longrightarrow> t = (None, None, None) \<or> (\<exists>d m y. t = (Some d, Some m, Some y))"
  by (induction fs) (auto simp: triple_of_def split: sum.splits if_splits)

lemma parse_date_value_shape:
  "parse_date_value v = (None, None, None) \<or> (\<exists>d m y. parse_date_value v = (Some d, Some m, Some y))"
proof (cases v)
  case (PStr s)
  then show ?thesis
    using try_formats_shape [of "strip s" date_formats]
    by (auto split: sum.splits)
next
  case (PInt n)
  then show ?thesis by (auto simp: triple_of_def split: sum.splits)
next
  case (PFloat f s)
  then show ?thesis by (auto simp: triple_of_def split: sum.splits option.splits)
qed auto

lemma toordinal_epoch: "toordinal 1899 12 30 = 693594"
  by (simp add: toordinal_def days_before_year_def days_before_month_table month_table_def is_leap_def)

lemma to_datetime_days_in_range:
  assumes "- 81182 \<le> n" "n \<le> 132320"
  shows "to_datetime_days n = Inr (ord2ymd (n + 693594))"
  using assms by (simp add: to_datetime_days_def Let_def add.commute)

lemma to_datetime_days_out_of_range:
  assumes "n < - 81182 \<or> 132320 < n"
  shows "to_datetime_days n = Inl (Exn OutOfBoundsDatetime ''Out of bounds nanosecond timestamp'')"
  using assms by (auto simp: to_datetime_days_def Let_def)

lemma serial_date:
  assumes "- 81182 \<le> n" "n \<le> 132320"
  shows "\<exists>d m y. parse_date_value (PInt n) = (Some (Num d), Some (Num m), Some (Num y)) \<and>
           valid_date y m d \<and>
           toordinal y m d = toordinal 1899 12 30 + n"
proof -
  let ?k = "n + 693594"
  let ?dt = "ord2ymd ?k"
  from assms have k1: "1 \<le> ?k" by simp
  note c = ord2ymd_correct [OF k1]
  have "(?k - 1) div 146097 \<le> 825913 div 146097"
    by (rule zdiv_mono1) (use assms in simp_all)
  then have "(?k - 1) div 146097 \<le> 5" by simp
  with c have yr: "dt_year ?dt \<le> 9999" by linarith
  have p: "parse_date_value (PInt n) =
             (Some (Num (dt_day ?dt)), Some (Num (dt_month ?dt)), Some (Num (dt_year ?dt)))"
    by (simp add: to_datetime_days_in_range [OF assms] triple_of_def)
  have v: "valid_date (dt_year ?dt) (dt_month ?dt) (dt_day ?dt)"
    using c yr by (simp add: valid_date_def)
  have t: "toordinal (dt_year ?dt) (dt_month ?dt) (dt_day ?dt) = toordinal 1899 12 30 + n"
    using c by (simp add: toordinal_epoch)
  from p v t show ?thesis by blast
qed

subsection \<open>Float serials\<close>

lemma round_half_even_add_even:
  assumes "even n"
  shows "round_half_even (x + of_int n) = round_half_even x + n"
  using assms by (simp add: round_half_even_def Let_def)

lemma round_half_even_of_int: "round_half_even (of_int n) = n"
  by (simp add: round_half_even_def Let_def)

lemma round_half_even_ge:
  assumes "of_int n \<le> x"
  shows "n \<le> round_half_even x"
proof -
  from assms have "n \<le> \<lfloor>x\<rfloor>" by (simp add: le_floor_iff)
  then show ?thesis by (simp add: round_half_even_def Let_def)
qed

lemma round_half_even_le:
  assumes "x \<le> of_int n"
  shows "round_half_even x \<le> n"
proof (cases "x = of_int n")
  case True
  then show ?thesis by (simp add: round_half_even_of_int)
next
  case False
  with assms have "x < of_int n" by simp
  then have "\<lfloor>x\<rfloor> < n" by (simp add: floor_less_iff)
  then show ?thesis by (simp add: round_half_even_def Let_def)
qed

lemma trunc_int_of_int: "trunc_int (of_int n) = n"
  by (simp add: trunc_int_def)

lemma round_half_even_split:
  "round_half_even (u * 1000000000) =
     trunc_int u * 1000000000 + round_half_even ((u - of_int (trunc_int u)) * 1000000000)"
proof -
  let ?b = "trunc_int u"
  have "u * 1000000000 = (u - of_int ?b) * 1000000000 + of_int (?b * 1000000000)"
    by (simp add: algebra_simps)
  then have "round_half_even (u * 1000000000) =
      round_half_even ((u - of_int ?b) * 1000000000 + of_int (?b * 1000000000))"
    by simp
  also have "\<dots> = round_half_even ((u - of_int ?b) * 1000000000) + ?b * 1000000000"
    by (rule round_half_even_add_even) simp
  finally show ?thesis by simp
qed

lemma trunc_int_between:
  "(0 \<le> trunc_int u * 1000000000 \<and> trunc_int u * 1000000000 \<le> round_half_even (u * 1000000000)) \<or>
   (round_half_even (u * 1000000000) \<le> trunc_int u * 1000000000 \<and> trunc_int u * 1000000000 \<le> 0)"
proof (cases "0 \<le> u")
  case True
  then have b: "trunc_int u = \<lfloor>u\<rfloor>" by (simp add: trunc_int_def)
  have "of_int (\<lfloor>u\<rfloor> * 1000000000) \<le> u * 1000000000" by simp
  then have "\<lfloor>u\<rfloor> * 1000000000 \<le> round_half_even (u * 1000000000)"
    by (rule round_half_even_ge)
  moreover from True have "0 \<le> \<lfloor>u\<rfloor>" by simp
  ultimately show ?thesis using b by simp
next
  case False
  then have b: "trunc_int u = \<lceil>u\<rceil>" by (simp add: trunc_int_def)
  have "u * 1000000000 \<le> of_int (\<lceil>u\<rceil> * 1000000000)" by simp
  then have "round_half_even (u * 1000000000) \<le> \<lceil>u\<rceil> * 1000000000"
    by (rule round_half_even_le)
  moreover from False have "\<lceil>u\<rceil> \<le> 0" by (simp add: ceiling_le_iff)
  ultimately show ?thesis using b by simp
qed

lemma cast_days_to_ns_ns:
  "trunc_int u * ns_per_day +
     trunc_int (of_int (round_half_even ((u - of_int (trunc_int u)) * 1000000000)) / 1000000000 *
                of_int ns_per_day) =
   86400 * round_half_even (u * 1000000000)"
proof -
  let ?k0 = "round_half_even ((u - of_int (trunc_int u)) * 1000000000)"
  have "(of_int ?k0 :: rat) / 1000000000 * of_int ns_per_day = of_int (86400 * ?k0)"
    by (simp add: ns_per_day_def)
  then have "trunc_int (of_int ?k0 / 1000000000 * of_int ns_per_day) = 86400 * ?k0"
    by (simp only: trunc_int_of_int)
  then show ?thesis
    by (simp add: round_half_even_split [of u] ns_per_day_def)
qed

lemma cast_days_to_ns_in_range:
  assumes "- 106751991167300 \<le> round_half_even (u * 1000000000)"
    and "round_half_even (u * 1000000000) \<le> 106751991167300"
  shows "cast_days_to_ns u = Inr (86400 * round_half_even (u * 1000000000))"
proof -
  let ?K = "round_half_even (u * 1000000000)"
  let ?b = "trunc_int u"
  from trunc_int_between [of u] assms
  have b: "- 106751991167300 \<le> ?b * 1000000000" "?b * 1000000000 \<le> 106751991167300"
    by linarith+
  then have f1: "fits_int64 ?b" by (simp add: fits_int64_def)
  from b have f2: "fits_int64 (?b * ns_per_day)" by (simp add: fits_int64_def ns_per_day_def)
  from assms have f3: "fits_int64 (86400 * ?K)" by (simp add: fits_int64_def)
  show ?thesis
    unfolding cast_days_to_ns_def Let_def cast_days_to_ns_ns
    using f1 f2 f3 by simp
qed

lemma cast_days_to_ns_out_of_range:
  assumes "round_half_even (u * 1000000000) < - 106751991167300 \<or>
           106751991167300 < round_half_even (u * 1000000000)"
  shows "\<exists>e. cast_days_to_ns u = Inl e"
proof -
  from assms have "\<not> fits_int64 (86400 * round_half_even (u * 1000000000))"
    by (auto simp: fits_int64_def)
  then show ?thesis
    unfolding cast_days_to_ns_def Let_def cast_days_to_ns_ns by simp
qed

lemma nano_days_shift:
  "round_half_even ((v + of_int (- 25569)) * 1000000000) = nano_days v - 25569000000000"
proof -
  have "(v + of_int (- 25569)) * 1000000000 = v * 1000000000 + of_int (- 25569000000000)"
    by (simp add: algebra_simps)
  then have "round_half_even ((v + of_int (- 25569)) * 1000000000) =
      round_half_even (v * 1000000000 + of_int (- 25569000000000))"
    by simp
  also have "\<dots> = round_half_even (v * 1000000000) + (- 25569000000000)"
    by (rule round_half_even_add_even) simp
  finally show ?thesis by (simp add: nano_days_def)
qed

lemma to_datetime_float_in_range:
  assumes "- 81182991167300 \<le> nano_days v" "nano_days v \<le> 132320991167300"
  shows "to_datetime_float (FloatVal v) =
           Inr (Some (ord2ymd (nano_days v div 1000000000 + 693594)))"
proof -
  let ?u = "v + of_int (- 25569)"
  let ?K = "nano_days v - 25569000000000"
  have K: "round_half_even (?u * 1000000000) = ?K" by (rule nano_days_shift)
  from assms have "- 106751991167300 \<le> ?K" "?K \<le> 106751991167300" by simp_all
  then have c: "cast_days_to_ns ?u = Inr (86400 * ?K)"
    using cast_days_to_ns_in_range [of ?u] unfolding K by simp
  have "(86400 * ?K) div ns_per_day = ?K div 1000000000"
    by (simp add: ns_per_day_def)
  also have "\<dots> = nano_days v div 1000000000 - 25569"
    using div_mult_self1 [of "1000000000 :: int" "nano_days v" "- 25569"] by simp
  finally have d: "(86400 * ?K) div ns_per_day = nano_days v div 1000000000 - 25569" by simp
  show ?thesis
    unfolding to_datetime_float_def pyfloat.case c sum.case d by (simp add: add.commute)
qed

lemma to_datetime_float_out_of_range:
  assumes "nano_days v < - 81182991167300 \<or> 132320991167300 < nano_days v"
  shows "\<exists>e. to_datetime_float (FloatVal v) = Inl e"
proof -
  let ?u = "v + of_int (- 25569)"
  have K: "round_half_even (?u * 1000000000) = nano_days v - 25569000000000"
    by (rule nano_days_shift)
  from assms have "round_half_even (?u * 1000000000) < - 106751991167300 \<or>
      106751991167300 < round_half_even (?u * 1000000000)"
    unfolding K by auto
  from cast_days_to_ns_out_of_range [OF this] obtain e where "cast_days_to_ns ?u = Inl e" ..
  then show ?thesis by (simp add: to_datetime_float_def)
qed

lemma float_serial_date:
  assumes "- 81182991167300 \<le> nano_days v" "nano_days v \<le> 132320991167300"
  shows "\<exists>d m y. parse_date_value (PFloat (FloatVal v) s) =
             (Some (Num d), Some (Num m), Some (Num y)) \<and>
           valid_date y m d \<and>
           toordinal y m d = toordinal 1899 12 30 + nano_days v div 1000000000"
proof -
  let ?n = "nano_days v div 1000000000"
  let ?k = "?n + 693594"
  let ?dt = "ord2ymd ?k"
  from assms(1) have "(- 81182991167300) div 1000000000 \<le> ?n" by (intro zdiv_mono1) simp_all
  then have n1: "- 81183 \<le> ?n" by simp
  from assms(2) have "?n \<le> 132320991167300 div 1000000000" by (intro zdiv_mono1) simp_all
  then have n2: "?n \<le> 132320" by simp
  from n1 have k1: "1 \<le> ?k" by simp
  note c = ord2ymd_correct [OF k1]
  have "(?k - 1) div 146097 \<le> 825913 div 146097"
    by (rule zdiv_mono1) (use n2 in simp_all)
  then have "(?k - 1) div 146097 \<le> 5" by simp
  with c have yr: "dt_year ?dt \<le> 9999" by linarith
  have p: "parse_date_value (PFloat (FloatVal v) s) =
             (Some (Num (dt_day ?dt)), Some (Num (dt_month ?dt)), Some (Num (dt_year ?dt)))"
    by (simp add: to_datetime_float_in_range [OF assms] triple_of_def)
  have vd: "valid_date (dt_year ?dt) (dt_month ?dt) (dt_day ?dt)"
    using c yr by (simp add: valid_date_def)
  have t: "toordinal (dt_year ?dt) (dt_month ?dt) (dt_day ?dt) = toordinal 1899 12 30 + ?n"
    using c by (simp add: toordinal_epoch)
  from p vd t show ?thesis by blast
qed

lemma float_serial_out_of_range:
  assumes "nano_days v < - 81182991167300 \<or> 132320991167300 < nano_days v"
  shows "parse_date_value (PFloat (FloatVal v) s) = (None, None, None)"
  using to_datetime_float_out_of_range [OF assms] by auto

lemma nano_days_of_int: "nano_days (of_int n) div 1000000000 = n"
proof -
  have "nano_days (of_int n) = round_half_even (of_int (n * 1000000000))"
    by (simp add: nano_days_def)
  then show ?thesis by (simp add: round_half_even_of_int del: of_int_mult)
qed

lemma nano_days_nine_decimals:
  "nano_days (of_int j / 1000000000) div 1000000000 = \<lfloor>(of_int j :: rat) / 1000000000\<rfloor>"
proof -
  have "nano_days (of_int j / 1000000000) = j"
    by (simp add: nano_days_def round_half_even_of_int)
  moreover have "\<lfloor>(of_int j :: rat) / 1000000000\<rfloor> = j div 1000000000"
    using floor_divide_of_int_eq [of j 1000000000, where ?'a = rat] by simp
  ultimately show ?thesis by simp
qed

lemma float_special:
  "parse_date_value (PFloat FloatNaN s) = (Some NaN, Some NaN, Some NaN)"
  "parse_date_value (PFloat FloatInf s) = (None, None, None)"
  "parse_date_value (PFloat FloatNegInf s) = (None, None, None)"
  by (simp_all add: to_datetime_float_def)

section \<open>The claims\<close>

text \<open>
  Claim C4, as stated: a date string that matches one of the six patterns is parsed to
  the day, month and year written in it. This fails where two patterns read one string
  differently: \<^verbatim>\<open>05/06/2020\<close> is the 5th of June 2020 written as DD/MM/YYYY, and the
  parser, which tries MM/DD/YYYY first, returns day 6 and month 5.
\<close>

theorem C4_counterexample:
  "write_date fmt_d_m_Y_slash 2020 6 5 = ''05/06/2020'' \<and> valid_date 2020 6 5 \<and>
   parse_date_value (PStr ''05/06/2020'') = (Some (Num 6), Some (Num 5), Some (Num 2020))"
  by code_simp

text \<open>
  Claim C4, amended: for every calendar date (years 1 to 9999) written with two-digit day
  and month and four-digit year as DD-MM-YYYY, YYYY-MM-DD, MM/DD/YYYY or YYYY/MM/DD, the
  parser returns exactly that day, month and year. Written as DD/MM/YYYY it returns them
  when the day is above 12, and otherwise the MM/DD/YYYY reading of the string (day and
  month exchanged). Written as DD-MM-YY it returns the day and month and the year that
  the two digits denote between 1969 and 2068, which is the year written exactly for the
  years 1969 to 2068.
\<close>

theorem C4_parse_written_date:
  assumes "valid_date y m d"
  shows "parse_date_value (PStr (write_date fmt_d_m_Y y m d)) = (Some (Num d), Some (Num m), Some (Num y)) \<and>
         parse_date_value (PStr (write_date fmt_Y_m_d y m d)) = (Some (Num d), Some (Num m), Some (Num y)) \<and>
         parse_date_value (PStr (write_date fmt_m_d_Y_slash y m d)) = (Some (Num d), Some (Num m), Some (Num y)) \<and>
         parse_date_value (PStr (write_date fmt_Y_m_d_slash y m d)) = (Some (Num d), Some (Num m), Some (Num y)) \<and>
         parse_date_value (PStr (write_date fmt_d_m_Y_slash y m d)) =
           (if d \<le> 12 then (Some (Num m), Some (Num d), Some (Num y)) else (Some (Num d), Some (Num m), Some (Num y))) \<and>
         parse_date_value (PStr (write_date fmt_d_m_y y m d)) =
           (Some (Num d), Some (Num m), Some (Num (pivot_year (y mod 100)))) \<and>
         (1969 \<le> y \<and> y \<le> 2068 \<longrightarrow> pivot_year (y mod 100) = y)"
  using parse_written_date [OF assms] pivot_year_same [of y] by simp

theorem C4_parse_written_date_witness:
  "valid_date 1990 8 15 \<and>
   parse_date_value (PStr ''15-08-1990'') = (Some (Num 15), Some (Num 8), Some (Num 1990)) \<and>
   parse_date_value (PStr ''1990-08-15'') = (Some (Num 15), Some (Num 8), Some (Num 1990)) \<and>
   parse_date_value (PStr ''08/15/1990'') = (Some (Num 15), Some (Num 8), Some (Num 1990)) \<and>
   parse_date_value (PStr ''1990/08/15'') = (Some (Num 15), Some (Num 8), Some (Num 1990)) \<and>
   parse_date_value (PStr ''15/08/1990'') = (Some (Num 15), Some (Num 8), Some (Num 1990)) \<and>
   parse_date_value (PStr ''15-08-90'') = (Some (Num 15), Some (Num 8), Some (Num 1990))"
proof -
  have v: "valid_date 1990 8 15" by code_simp
  have w: "write_date fmt_d_m_Y 1990 8 15 = ''15-08-1990''"
    "write_date fmt_Y_m_d 1990 8 15 = ''1990-08-15''"
    "write_date fmt_m_d_Y_slash 1990 8 15 = ''08/15/1990''"
    "write_date fmt_Y_m_d_slash 1990 8 15 = ''1990/08/15''"
    "write_date fmt_d_m_Y_slash 1990 8 15 = ''15/08/1990''"
    "write_date fmt_d_m_y 1990 8 15 = ''15-08-90''"
    by code_simp+
  have p: "pivot_year (1990 mod 100) = 1990" by code_simp
  show ?thesis
    using v C4_parse_written_date [OF v] by (simp add: w p)
qed




text \<open>
  Claim C6. The normalizer is idempotent: normalizing an already normalized label gives
  the same label, for every input. It is a total function of its input alone, and a
  value that is not a string is normalized as its string conversion.
\<close>

theorem C6_normalize_idempotent:
  "normalize (PStr (normalize x)) = normalize x \<and>
   normalize x = normalize (PStr (py_str x))"
proof
  show "normalize (PStr (normalize x)) = normalize x"
    by (rule normalize_idempotent)
  show "normalize x = normalize (PStr (py_str x))"
    by (simp add: normalize_def)
qed

text \<open>
  Claim C9. For every input the parser returns either three \<^verbatim>\<open>None\<close> or three numbers
  (three NaN for a NaN float and for \<^verbatim>\<open>NaT\<close>), never a partly filled result; so the test of
  line 245, which fails the date field when any of the three is \<^verbatim>\<open>None\<close>, holds exactly
  when all three are.
\<close>

theorem C9_all_or_nothing:
  "(parse_date_value v = (None, None, None) \<or>
    (\<exists>d m y. parse_date_value v = (Some d, Some m, Some y))) \<and>
   date_unparseable (parse_date_value v) = (parse_date_value v = (None, None, None))"
  using parse_date_value_shape [of v] by (auto simp: date_unparseable_def)

end
